theory Spec2Isabelle
  imports Main "HOL-Library.Word"
begin

unbundle bit_operations_syntax

section \<open>Failures of the Go program as values\<close>

text \<open>
  Every way the Go code can stop without a result is a constructor: a run-time panic of
  an out-of-range index, of \<^verbatim>\<open>make\<close> with a negative length or capacity, of a nil
  pointer, the two explicit \<^verbatim>\<open>panic\<close> calls of the indexer, and the error value that
  \<^verbatim>\<open>Scan\<close> returns.
\<close>

datatype error =
    IndexOutOfRange
  | MakeSliceOutOfRange
  | NilDereference
  | ParseError
  | PanicBitsize
  | PanicPageno int

section \<open>bitvector/bitvector.go\<close>

text \<open>
  \<^verbatim>\<open>type BitVector struct { size int; bits []uint8 }\<close>. The field \<^verbatim>\<open>size\<close> is named
  \<open>size_bv\<close> here. Bit indices are Go \<^verbatim>\<open>uint\<close> values, modelled as natural numbers.
\<close>

record BitVector =
  size_bv :: int
  bits :: "8 word list"

text \<open>
  \<^verbatim>\<open>New\<close>: \<^verbatim>\<open>nbytes := size >> 3\<close> is an arithmetic shift (rounding down), and
  \<^verbatim>\<open>make\<close> panics on a negative length.
\<close>

definition New :: "int \<Rightarrow> error + BitVector" where
  "New sz =
     (let nbytes = sz div 8 in
      if nbytes < 0 then Inl MakeSliceOutOfRange
      else Inr \<lparr>size_bv = sz, bits = replicate (nat nbytes) 0\<rparr>)"

definition Set :: "BitVector \<Rightarrow> nat \<Rightarrow> error + BitVector" where
  "Set bv i =
     (if i div 8 < length (bits bv)
      then Inr (bv\<lparr>bits := (bits bv)[i div 8 := (bits bv ! (i div 8)) OR push_bit (i mod 8) 1]\<rparr>)
      else Inl IndexOutOfRange)"

definition Unset :: "BitVector \<Rightarrow> nat \<Rightarrow> error + BitVector" where
  "Unset bv i =
     (if i div 8 < length (bits bv)
      then Inr (bv\<lparr>bits := (bits bv)[i div 8 := (bits bv ! (i div 8)) AND NOT (push_bit (i mod 8) 1)]\<rparr>)
      else Inl IndexOutOfRange)"

definition Get :: "BitVector \<Rightarrow> nat \<Rightarrow> error + bool" where
  "Get bv i =
     (if i div 8 < length (bits bv)
      then Inr ((bits bv ! (i div 8)) AND push_bit (i mod 8) 1 \<noteq> 0)
      else Inl IndexOutOfRange)"

text \<open>\<^verbatim>\<open>String\<close>: the loop \<^verbatim>\<open>for i := 0; i < bv.size; i++\<close> runs over the indices
  \<open>[0..<size]\<close>; the buffer is the accumulator.\<close>

fun String_loop :: "BitVector \<Rightarrow> nat list \<Rightarrow> string \<Rightarrow> error + string" where
  "String_loop bv [] buf = Inr buf"
| "String_loop bv (i # is) buf =
     (let buf1 = (if i > 0 \<and> i mod 8 = 0 then buf @ '' '' else buf) in
      case Get bv i of
        Inl e \<Rightarrow> Inl e
      | Inr b \<Rightarrow> String_loop bv is (buf1 @ (if b then ''1'' else ''0'')))"

definition String_bv :: "BitVector \<Rightarrow> error + string" where
  "String_bv bv = String_loop bv [0..<nat (size_bv bv)] []"

text \<open>\<^verbatim>\<open>Scan\<close>: the first loop collects the booleans, the second sets the bits.\<close>

fun Scan_chars :: "string \<Rightarrow> bool list \<Rightarrow> error + bool list" where
  "Scan_chars [] bs = Inr bs"
| "Scan_chars (c # s) bs =
     (if c = CHR ''1'' then Scan_chars s (bs @ [True])
      else if c = CHR ''0'' then Scan_chars s (bs @ [False])
      else if c = CHR '' '' then Scan_chars s bs
      else Inl ParseError)"

fun Scan_set :: "BitVector \<Rightarrow> (nat \<times> bool) list \<Rightarrow> error + BitVector" where
  "Scan_set bv [] = Inr bv"
| "Scan_set bv ((i, b) # rest) =
     (if b then (case Set bv i of Inl e \<Rightarrow> Inl e | Inr bv' \<Rightarrow> Scan_set bv' rest)
      else Scan_set bv rest)"

definition Scan :: "string \<Rightarrow> error + BitVector" where
  "Scan s =
     (case Scan_chars s [] of
        Inl e \<Rightarrow> Inl e
      | Inr bs \<Rightarrow>
          (case New (int (length bs)) of
             Inl e \<Rightarrow> Inl e
           | Inr bv \<Rightarrow> Scan_set bv (zip [0..<length bs] bs)))"

definition ByteSize :: "BitVector \<Rightarrow> int" where
  "ByteSize bv = (size_bv bv + 7) div 8"

text \<open>Modelled from the spec: the table \<^verbatim>\<open>popcnt\<close> that \<^verbatim>\<open>Hamming\<close> indexes is not
  under src/; the spec calls its entries the population count of the byte.\<close>

definition popcnt :: "8 word \<Rightarrow> nat" where
  "popcnt w = length (filter (bit w) [0..<8])"

fun Hamming_loop :: "BitVector \<Rightarrow> BitVector \<Rightarrow> nat list \<Rightarrow> int \<Rightarrow> error + int" where
  "Hamming_loop x y [] dist = Inr dist"
| "Hamming_loop x y (i # is) dist =
     (if i < length (bits x) \<and> i < length (bits y)
      then Hamming_loop x y is (dist + int (popcnt ((bits x ! i) XOR (bits y ! i))))
      else Inl IndexOutOfRange)"

definition Hamming :: "BitVector \<Rightarrow> BitVector \<Rightarrow> error + int" where
  "Hamming x y = Hamming_loop x y [0..<nat (ByteSize x)] 0"


section \<open>lsh: pages, storage and the indexer\<close>

subsection \<open>Page\<close>

text \<open>
  \<^verbatim>\<open>type Page struct { nitems int32; link int32; items [1023]uint64 }\<close>. The array is a
  list of \<open>items_len\<close> entries; an index outside it panics. \<^verbatim>\<open>Link\<close> converts its
  \<^verbatim>\<open>int\<close> argument to \<^verbatim>\<open>int32\<close>, which keeps the low 32 bits.
\<close>

record Page =
  nitems :: int
  link :: int
  items :: "64 word list"

definition items_len :: nat where
  "items_len = 1023"

definition int32 :: "int \<Rightarrow> int" where
  "int32 n = sint (word_of_int n :: 32 word)"

definition Page_zero :: Page where
  "Page_zero = \<lparr>nitems = 0, link = 0, items = replicate items_len 0\<rparr>"

definition Link :: "Page \<Rightarrow> int \<Rightarrow> Page" where
  "Link p nxt = p\<lparr>link := int32 nxt\<rparr>"

definition Init :: "Page \<Rightarrow> Page" where
  "Init p = Link p (- 1)"

text \<open>\<^verbatim>\<open>Page.Add\<close>: the index check of \<^verbatim>\<open>p.items[itemlen]\<close> keeps \<open>nitems\<close> below
  the array length, so \<^verbatim>\<open>p.nitems++\<close> cannot leave the \<^verbatim>\<open>int32\<close> range.\<close>

definition Page_Add :: "Page \<Rightarrow> 64 word \<Rightarrow> error + Page" where
  "Page_Add p itemid =
     (let itemlen = nitems p in
      if 0 \<le> itemlen \<and> itemlen < int (length (items p))
      then Inr (p\<lparr>items := (items p)[nat itemlen := itemid], nitems := nitems p + 1\<rparr>)
      else Inl IndexOutOfRange)"

text \<open>\<^verbatim>\<open>Gets\<close>: the slice expression \<^verbatim>\<open>p.items[:itemlen]\<close> panics outside \<open>0..len\<close>.\<close>

definition Gets :: "Page \<Rightarrow> error + 64 word list" where
  "Gets p =
     (let itemlen = nitems p in
      if 0 \<le> itemlen \<and> itemlen \<le> int (length (items p))
      then Inr (take (nat itemlen) (items p))
      else Inl IndexOutOfRange)"

definition CountItems :: "Page \<Rightarrow> int" where
  "CountItems p = nitems p"

definition Next :: "Page \<Rightarrow> int" where
  "Next p = link p"

definition Full :: "Page \<Rightarrow> bool" where
  "Full p \<longleftrightarrow> nitems p = int (length (items p))"

subsection \<open>Storage and the page iterator\<close>

text \<open>
  \<^verbatim>\<open>type Storage struct { hash []int32; pages []Page }\<close>. A Go slice has a length and a
  capacity: \<^verbatim>\<open>append\<close> writes in place while the length is below the capacity and
  otherwise copies the elements into a new array. \<open>pages_cap\<close> is the capacity of
  \<^verbatim>\<open>pages\<close>. The capacity of the new array is chosen by the Go runtime; it is the
  parameter \<open>grow\<close> (from the old capacity to the new one) of every function that
  allocates a page.
\<close>

record Storage =
  hash :: "int list"
  pages :: "Page list"
  pages_cap :: nat

definition getPage :: "Storage \<Rightarrow> int \<Rightarrow> error + Page" where
  "getPage s pageno =
     (if 0 \<le> pageno \<and> pageno < int (length (pages s)) then Inr (pages s ! nat pageno)
      else Inl IndexOutOfRange)"

definition allocatePage :: "(nat \<Rightarrow> nat) \<Rightarrow> Storage \<Rightarrow> Storage \<times> int" where
  "allocatePage grow s =
     (let n = length (pages s);
          c = (if n < pages_cap s then pages_cap s else grow (pages_cap s))
      in (s\<lparr>pages := pages s @ [Init Page_zero], pages_cap := c\<rparr>, int n))"

record pageIter =
  currno :: int
  nextno :: int

definition pageIterator :: "int \<Rightarrow> pageIter" where
  "pageIterator pageno = \<lparr>currno = - 1, nextno = pageno\<rparr>"

text \<open>\<^verbatim>\<open>pageIter.next\<close> returns the boolean and the updated iterator. A \<open>nextno\<close> below
  \<open>-1\<close> passes the explicit check and panics in \<^verbatim>\<open>getPage\<close>.\<close>

definition pageIter_next :: "Storage \<Rightarrow> pageIter \<Rightarrow> error + (bool \<times> pageIter)" where
  "pageIter_next s it =
     (if nextno it = - 1 then Inr (False, it)
      else if nextno it \<ge> int (length (pages s)) then Inl (PanicPageno (nextno it))
      else (case getPage s (nextno it) of
              Inl e \<Rightarrow> Inl e
            | Inr p \<Rightarrow> Inr (True, \<lparr>currno = nextno it, nextno = Next p\<rparr>)))"

text \<open>
  The loop of \<^verbatim>\<open>Storage.Add\<close>, \<^verbatim>\<open>for iter.next() { page = iter.page(); pageno =
  iter.pageno() }\<close>. It may run forever on a cyclic chain, so its result is an option:
  \<open>None\<close> is a loop that does not end. The pointer \<^verbatim>\<open>page\<close> is \<open>None\<close> for nil and
  otherwise the position in \<^verbatim>\<open>s.pages\<close> it was taken from.
\<close>

partial_function (option) Add_walk ::
  "Storage \<Rightarrow> pageIter \<Rightarrow> int option \<Rightarrow> int \<Rightarrow> (error + (int option \<times> int)) option" where
  "Add_walk s it page pageno =
     (case pageIter_next s it of
        Inl e \<Rightarrow> Some (Inl e)
      | Inr (ok, it') \<Rightarrow>
          if ok then Add_walk s it' (Some (currno it')) (currno it')
          else Some (Inr (page, pageno)))"

text \<open>
  \<^verbatim>\<open>Storage.Add\<close>. \<^verbatim>\<open>page\<close> points into the array that \<^verbatim>\<open>s.pages\<close> had during the
  walk. When the tail page is full, \<^verbatim>\<open>allocatePage\<close> appends to \<^verbatim>\<open>s.pages\<close>; if the
  length had reached the capacity, the append moves the pages to a new array and
  \<^verbatim>\<open>page.Link(newpageno)\<close> writes into the abandoned one, which nothing reads again:
  the link is lost. If the append was in place the link is stored.
\<close>

definition Storage_Add ::
  "(nat \<Rightarrow> nat) \<Rightarrow> Storage \<Rightarrow> 64 word \<Rightarrow> int \<Rightarrow> (error + (Storage \<times> int)) option" where
  "Storage_Add grow s itemid pageno =
     (case Add_walk s (pageIterator pageno) None pageno of
        None \<Rightarrow> None
      | Some (Inl e) \<Rightarrow> Some (Inl e)
      | Some (Inr (None, pageno1)) \<Rightarrow> Some (Inl NilDereference)
      | Some (Inr (Some pg, pageno1)) \<Rightarrow>
          if Full (pages s ! nat pg) then
            (let moved = (pages_cap s \<le> length (pages s));
                 (s1, newpageno) = allocatePage grow s;
                 s2 = (if moved then s1
                       else s1\<lparr>pages := (pages s1)[nat pg := Link (pages s1 ! nat pg) newpageno]\<rparr>)
             in case Page_Add (pages s2 ! nat newpageno) itemid of
                  Inl e \<Rightarrow> Some (Inl e)
                | Inr p' \<Rightarrow> Some (Inr (s2\<lparr>pages := (pages s2)[nat newpageno := p']\<rparr>, newpageno)))
          else
            (case Page_Add (pages s ! nat pg) itemid of
               Inl e \<Rightarrow> Some (Inl e)
             | Inr p' \<Rightarrow> Some (Inr (s\<lparr>pages := (pages s)[nat pg := p']\<rparr>, pageno1))))"

subsection \<open>Indexer\<close>

text \<open>
  The vectors are lists over a type \<open>'f\<close> that stands for \<^verbatim>\<open>float32\<close>. The field
  \<^verbatim>\<open>distance\<close> holds the method \<^verbatim>\<open>GetBitVector\<close> of the \<^verbatim>\<open>Distance\<close> interface. The
  following parts are not under src/ and are parameters of the functions that use them:
  the hasher \<^verbatim>\<open>Angular\<close>, the generator (\<^verbatim>\<open>NewRandomVectorGen\<close> and its \<^verbatim>\<open>Next\<close>), and
  the conversions \<^verbatim>\<open>BitVector.Uint32\<close> and \<^verbatim>\<open>bitvector.FromUint32\<close>.
\<close>

record 'f Indexer =
  seed :: int
  bitsize :: int
  vecsize :: int
  distance :: "'f list list \<Rightarrow> 'f list \<Rightarrow> error + BitVector"
  hyperplane :: "'f list list"
  storage :: Storage
  lookup :: "32 word \<rightharpoonup> int"

text \<open>The loop \<^verbatim>\<open>for i := 0; i < bitsize; i++ { idx.hyperplane[i] = generator.Next() }\<close>,
  with the generator state threaded through.\<close>

fun init_hyperplane :: "('g \<Rightarrow> 'f list \<times> 'g) \<Rightarrow> 'g \<Rightarrow> nat \<Rightarrow> 'f list list" where
  "init_hyperplane Next_gen g 0 = []"
| "init_hyperplane Next_gen g (Suc n) =
     (let (v, g') = Next_gen g in v # init_hyperplane Next_gen g' n)"

text \<open>\<^verbatim>\<open>NewIndexer\<close>: the explicit panic, and the panic of \<^verbatim>\<open>make\<close> on a negative
  length.\<close>

definition NewIndexer ::
  "(int \<Rightarrow> int \<Rightarrow> 'g) \<Rightarrow> ('g \<Rightarrow> 'f list \<times> 'g) \<Rightarrow>
   ('f list list \<Rightarrow> 'f list \<Rightarrow> error + BitVector) \<Rightarrow>
   int \<Rightarrow> int \<Rightarrow> int \<Rightarrow> error + 'f Indexer" where
  "NewIndexer NewRandomVectorGen Next_gen Angular sd bs vs =
     (if bs > 32 then Inl PanicBitsize
      else if bs < 0 then Inl MakeSliceOutOfRange
      else Inr \<lparr>seed = sd, bitsize = bs, vecsize = vs, distance = Angular,
                hyperplane = init_hyperplane Next_gen (NewRandomVectorGen sd vs) (nat bs),
                storage = \<lparr>hash = [], pages = [], pages_cap = 0\<rparr>,
                lookup = Map.empty\<rparr>)"

definition Indexer_Add ::
  "(nat \<Rightarrow> nat) \<Rightarrow> (BitVector \<Rightarrow> error + 32 word) \<Rightarrow>
   'f Indexer \<Rightarrow> 64 word \<Rightarrow> 'f list \<Rightarrow> (error + 'f Indexer) option" where
  "Indexer_Add grow Uint32 idx itemid vec =
     (case distance idx (hyperplane idx) vec of
        Inl e \<Rightarrow> Some (Inl e)
      | Inr key \<Rightarrow>
          (case Uint32 key of
             Inl e \<Rightarrow> Some (Inl e)
           | Inr k \<Rightarrow>
               (let (idx1, pageno) =
                      (case lookup idx k of
                         Some pageno \<Rightarrow> (idx, pageno)
                       | None \<Rightarrow>
                           (let (s1, pageno) = allocatePage grow (storage idx)
                            in (idx\<lparr>storage := s1, lookup := (lookup idx)(k \<mapsto> pageno)\<rparr>, pageno)))
                in case Storage_Add grow (storage idx1) itemid pageno of
                     None \<Rightarrow> None
                   | Some (Inl e) \<Rightarrow> Some (Inl e)
                   | Some (Inr (s2, pageno2)) \<Rightarrow> Some (Inr (idx1\<lparr>storage := s2\<rparr>)))))"

text \<open>The inner loop of \<^verbatim>\<open>Search\<close>, \<^verbatim>\<open>for iter.next() { items = append(items,
  iter.page().Gets()...) }\<close>.\<close>

partial_function (option) Search_pages ::
  "Storage \<Rightarrow> pageIter \<Rightarrow> 64 word list \<Rightarrow> (error + 64 word list) option" where
  "Search_pages s it its =
     (case pageIter_next s it of
        Inl e \<Rightarrow> Some (Inl e)
      | Inr (ok, it') \<Rightarrow>
          if ok then
            (case getPage s (currno it') of
               Inl e \<Rightarrow> Some (Inl e)
             | Inr page \<Rightarrow>
                 (case Gets page of
                    Inl e \<Rightarrow> Some (Inl e)
                  | Inr got \<Rightarrow> Search_pages s it' (its @ got)))
          else Some (Inr its))"

text \<open>
  \<^verbatim>\<open>BitVectorSlice.SortFrom\<close>: \<^verbatim>\<open>sort.Sort\<close> with \<^verbatim>\<open>Less(i, j) = Hamming(c, s[i]) <
  Hamming(c, s[j])\<close>. Sorting two or more elements compares every element, so a
  distance that panics makes the sort panic. The order of equal distances is not
  fixed by \<^verbatim>\<open>sort.Sort\<close>; here they keep their input order, and the input order is
  itself arbitrary (see \<open>Search\<close>), so every order that a sort by distance can produce
  is covered. \<^verbatim>\<open>Search\<close> calls the sort as \<^verbatim>\<open>bitvector.Sort(lkeys).From(key)\<close>, which
  is not under src/; \<^verbatim>\<open>SortFrom\<close> of bitvector.go stands for it.
\<close>

definition Hamming_or_0 :: "BitVector \<Rightarrow> BitVector \<Rightarrow> int" where
  "Hamming_or_0 c b = (case Hamming c b of Inr d \<Rightarrow> d | Inl e \<Rightarrow> 0)"

definition SortFrom :: "BitVector \<Rightarrow> BitVector list \<Rightarrow> error + BitVector list" where
  "SortFrom c s =
     (if 2 \<le> length s \<and> list_ex (\<lambda>b. isl (Hamming c b)) s then Inl IndexOutOfRange
      else Inr (sort_key (Hamming_or_0 c) s))"

text \<open>The outer loop of \<^verbatim>\<open>Search\<close>, \<^verbatim>\<open>for len(lkeys) > 0\<close>. A key missing from the map
  reads as page 0, the zero value.\<close>

fun Search_loop ::
  "(BitVector \<Rightarrow> error + 32 word) \<Rightarrow> 'f Indexer \<Rightarrow> BitVector \<Rightarrow> BitVector list \<Rightarrow>
   int \<Rightarrow> 64 word list \<Rightarrow> int \<Rightarrow> (error + 64 word list) option" where
  "Search_loop Uint32 idx key [] limit its lastdist = Some (Inr its)"
| "Search_loop Uint32 idx key (thiskey # lkeys) limit its lastdist =
     (case Hamming key thiskey of
        Inl e \<Rightarrow> Some (Inl e)
      | Inr thisdist \<Rightarrow>
          if lastdist \<noteq> thisdist \<and> int (length its) \<ge> limit then Some (Inr its)
          else
            (case Uint32 thiskey of
               Inl e \<Rightarrow> Some (Inl e)
             | Inr k \<Rightarrow>
                 (let pageno = (case lookup idx k of None \<Rightarrow> 0 | Some p \<Rightarrow> p)
                  in case Search_pages (storage idx) (pageIterator pageno) its of
                       None \<Rightarrow> None
                     | Some (Inl e) \<Rightarrow> Some (Inl e)
                     | Some (Inr its') \<Rightarrow> Search_loop Uint32 idx key lkeys limit its' thisdist)))"

text \<open>
  \<^verbatim>\<open>Indexer.Search\<close>. \<open>ks\<close> is the order in which \<^verbatim>\<open>range idx.lookup\<close> yields the keys
  of the map (each key once, in an order Go does not fix). \<^verbatim>\<open>make([]uint64, 0, limit)\<close>
  panics (\<^verbatim>\<open>makeslice: cap out of range\<close>) on a negative capacity and on a capacity
  whose \<open>8 * limit\<close> bytes are more than the runtime grants. \<open>maxAlloc\<close> is the largest
  number of bytes it grants: the allocator maximum of the Go runtime, a constant of the
  platform (\<open>2^48\<close> on 64-bit Linux), or less where memory is short. It is a parameter.
\<close>

definition Search ::
  "int \<Rightarrow> (BitVector \<Rightarrow> error + 32 word) \<Rightarrow> (32 word \<Rightarrow> int \<Rightarrow> BitVector) \<Rightarrow>
   'f Indexer \<Rightarrow> 32 word list \<Rightarrow> 'f list \<Rightarrow> int \<Rightarrow> (error + 64 word list) option" where
  "Search maxAlloc Uint32 FromUint32 idx ks vec limit =
     (case distance idx (hyperplane idx) vec of
        Inl e \<Rightarrow> Some (Inl e)
      | Inr key \<Rightarrow>
          (case SortFrom key (map (\<lambda>k. FromUint32 k (bitsize idx)) ks) of
             Inl e \<Rightarrow> Some (Inl e)
           | Inr lkeys \<Rightarrow>
               if limit < 0 \<or> maxAlloc < 8 * limit then Some (Inl MakeSliceOutOfRange)
               else Search_loop Uint32 idx key lkeys limit [] 0))"

text \<open>
  \<^verbatim>\<open>Indexer.Dump\<close>, up to the formatting: for every key in ascending numeric order the
  page numbers of its chain and the sum of the item counts, and the total that the last
  line prints. The text layout, the bit pattern of the key and the mean and deviation
  (floating point) are left out.
\<close>

partial_function (option) Dump_pages ::
  "Storage \<Rightarrow> pageIter \<Rightarrow> int \<Rightarrow> int list \<Rightarrow> (error + (int \<times> int list)) option" where
  "Dump_pages s it n pagenolist =
     (case pageIter_next s it of
        Inl e \<Rightarrow> Some (Inl e)
      | Inr (ok, it') \<Rightarrow>
          if ok then
            (case getPage s (currno it') of
               Inl e \<Rightarrow> Some (Inl e)
             | Inr page \<Rightarrow> Dump_pages s it' (n + CountItems page) (pagenolist @ [currno it']))
          else Some (Inr (n, pagenolist)))"

fun Dump_loop ::
  "'f Indexer \<Rightarrow> 32 word list \<Rightarrow> (32 word \<times> int list \<times> int) list \<Rightarrow>
   (error + (32 word \<times> int list \<times> int) list) option" where
  "Dump_loop idx [] rows = Some (Inr rows)"
| "Dump_loop idx (k # keys) rows =
     (let pageno = (case lookup idx k of None \<Rightarrow> 0 | Some p \<Rightarrow> p)
      in case Dump_pages (storage idx) (pageIterator pageno) 0 [] of
           None \<Rightarrow> None
         | Some (Inl e) \<Rightarrow> Some (Inl e)
         | Some (Inr (n, pagenolist)) \<Rightarrow> Dump_loop idx keys (rows @ [(k, pagenolist, n)]))"

definition Dump ::
  "'f Indexer \<Rightarrow> 32 word list \<Rightarrow> (error + ((32 word \<times> int list \<times> int) list \<times> int)) option" where
  "Dump idx ks =
     (case Dump_loop idx (sort_key uint ks) [] of
        None \<Rightarrow> None
      | Some (Inl e) \<Rightarrow> Some (Inl e)
      | Some (Inr rows) \<Rightarrow> Some (Inr (rows, sum_list (map (\<lambda>(k, pagenolist, n). n) rows))))"

section \<open>Predicates of the specification\<close>

subsection \<open>Bit vectors\<close>

text \<open>
  \<open>well_formed\<close>: the buffer holds the \<^verbatim>\<open>ByteSize\<close> bytes of the data model of the spec.
  \<open>xor_popcnt x y n\<close> is the sum of the population counts of the XOR of the first \<open>n\<close>
  bytes; \<open>differing_bits\<close> counts the bit positions of the buffer that \<^verbatim>\<open>Get\<close> reads
  differently in the two vectors. \<open>all_set\<close>, \<open>all_clear\<close> and \<open>padding_clear\<close> speak
  of the bits below \<open>size\<close> and of the unused bits of the last byte.
\<close>

definition well_formed :: "BitVector \<Rightarrow> bool" where
  "well_formed bv \<longleftrightarrow> int (length (bits bv)) = ByteSize bv"

definition xor_popcnt :: "BitVector \<Rightarrow> BitVector \<Rightarrow> nat \<Rightarrow> int" where
  "xor_popcnt x y n = sum_list (map (\<lambda>i. int (popcnt ((bits x ! i) XOR (bits y ! i)))) [0..<n])"

definition differing_bits :: "BitVector \<Rightarrow> BitVector \<Rightarrow> nat" where
  "differing_bits x y = length (filter (\<lambda>i. Get x i \<noteq> Get y i) [0..<8 * length (bits x)])"

definition all_set :: "BitVector \<Rightarrow> bool" where
  "all_set bv = list_all (\<lambda>i. Get bv i = Inr True) [0..<nat (size_bv bv)]"

definition all_clear :: "BitVector \<Rightarrow> bool" where
  "all_clear bv = list_all (\<lambda>i. Get bv i = Inr False) [0..<nat (size_bv bv)]"

definition padding_clear :: "BitVector \<Rightarrow> bool" where
  "padding_clear bv = list_all (\<lambda>i. Get bv i = Inr False) [nat (size_bv bv)..<8 * length (bits bv)]"

subsection \<open>Chains of pages and the state invariant\<close>

text \<open>
  \<open>chain ps p ns\<close>: following the links from position \<open>p\<close> visits exactly the pages
  \<open>ns\<close> and ends at the sentinel \<open>-1\<close>. \<open>page_ok\<close> is the invariant of one page: its link
  is the sentinel or a later position of the storage, and its count lies within its array.
  \<open>index_ok\<close> is the invariant of the index; in a state that satisfies it \<^verbatim>\<open>Add\<close>
  can only panic in the hasher or in \<^verbatim>\<open>Uint32\<close>, before it changes the index.
  \<open>AddAll\<close> is a sequence of \<^verbatim>\<open>Add\<close> calls on one index. \<open>page_items\<close> is what
  \<^verbatim>\<open>Gets\<close> returns for a page of the invariant, \<open>fresh_page\<close> a new page holding one
  item, \<open>put_item\<close> the effect of \<^verbatim>\<open>Page.Add\<close> on a page with room. \<open>finite_chain\<close>
  and \<open>links_in_storage\<close> state claim C10.
\<close>

fun chain :: "Page list \<Rightarrow> int \<Rightarrow> nat list \<Rightarrow> bool" where
  "chain ps p [] \<longleftrightarrow> p = - 1"
| "chain ps p (n # ns) \<longleftrightarrow> p = int n \<and> n < length ps \<and> chain ps (link (ps ! n)) ns"

definition page_ok :: "Page list \<Rightarrow> nat \<Rightarrow> bool" where
  "page_ok ps i \<longleftrightarrow>
     (link (ps ! i) = - 1 \<or> (int i < link (ps ! i) \<and> link (ps ! i) < int (length ps))) \<and>
     length (items (ps ! i)) = items_len \<and>
     0 \<le> nitems (ps ! i) \<and> nitems (ps ! i) \<le> int items_len"

definition storage_ok :: "Storage \<Rightarrow> bool" where
  "storage_ok s \<longleftrightarrow> (\<forall>i<length (pages s). page_ok (pages s) i)"

definition heads_ok :: "'f Indexer \<Rightarrow> bool" where
  "heads_ok idx \<longleftrightarrow>
     (\<forall>k p. lookup idx k = Some p \<longrightarrow> 0 \<le> p \<and> p < int (length (pages (storage idx))))"

definition index_ok :: "'f Indexer \<Rightarrow> bool" where
  "index_ok idx \<longleftrightarrow> storage_ok (storage idx) \<and> heads_ok idx"

fun AddAll ::
  "(nat \<Rightarrow> nat) \<Rightarrow> (BitVector \<Rightarrow> error + 32 word) \<Rightarrow> 'f Indexer \<Rightarrow>
   (64 word \<times> 'f list) list \<Rightarrow> (error + 'f Indexer) option" where
  "AddAll grow Uint32 idx [] = Some (Inr idx)"
| "AddAll grow Uint32 idx ((itemid, vec) # rest) =
     (case Indexer_Add grow Uint32 idx itemid vec of
        None \<Rightarrow> None
      | Some (Inl e) \<Rightarrow> Some (Inl e)
      | Some (Inr idx') \<Rightarrow> AddAll grow Uint32 idx' rest)"

definition page_items :: "Page \<Rightarrow> 64 word list" where
  "page_items p = take (nat (nitems p)) (items p)"

definition fresh_page :: "64 word \<Rightarrow> Page" where
  "fresh_page itemid = \<lparr>nitems = 1, link = - 1, items = (replicate items_len 0)[0 := itemid]\<rparr>"

definition put_item :: "Page \<Rightarrow> 64 word \<Rightarrow> Page" where
  "put_item p itemid = p\<lparr>items := (items p)[nat (nitems p) := itemid], nitems := nitems p + 1\<rparr>"



subsection \<open>Instances of the parameters\<close>

text \<open>
  Concrete instances of the parts that are not under src/, for the closed theorems: a
  generator of one-dimensional vectors, a sign hasher built from \<^verbatim>\<open>New\<close> and \<^verbatim>\<open>Set\<close>,
  little-endian conversions between vectors and 32-bit keys, the allocator maximum of
  64-bit Linux, and the capacity growth of the Go runtime for a slice of 8 KiB elements
  (0, 1, 2, 4, ... below 256 elements).
\<close>

definition example_gen :: "int \<Rightarrow> int \<Rightarrow> int" where
  "example_gen sd vs = sd"

definition example_Next :: "int \<Rightarrow> int list \<times> int" where
  "example_Next g = ([g], g + 1)"

fun example_signs :: "int list list \<Rightarrow> int list \<Rightarrow> nat \<Rightarrow> BitVector \<Rightarrow> error + BitVector" where
  "example_signs [] v i bv = Inr bv"
| "example_signs (h # hs) v i bv =
     (if 0 \<le> sum_list (map2 (*) h v)
      then (case Set bv i of Inl e \<Rightarrow> Inl e | Inr bv' \<Rightarrow> example_signs hs v (Suc i) bv')
      else example_signs hs v (Suc i) bv)"

definition example_Angular :: "int list list \<Rightarrow> int list \<Rightarrow> error + BitVector" where
  "example_Angular hs v =
     (case New (int (length hs)) of Inl e \<Rightarrow> Inl e | Inr bv \<Rightarrow> example_signs hs v 0 bv)"

definition example_Uint32 :: "BitVector \<Rightarrow> error + 32 word" where
  "example_Uint32 bv =
     (if bits bv = [] then Inl IndexOutOfRange
      else Inr (foldr (\<lambda>b w. ucast b OR push_bit 8 w) (take 4 (bits bv)) 0))"

definition example_FromUint32 :: "32 word \<Rightarrow> int \<Rightarrow> BitVector" where
  "example_FromUint32 k sz =
     \<lparr>size_bv = sz, bits = map (\<lambda>i. ucast (drop_bit (8 * i) k)) [0..<nat ((sz + 7) div 8)]\<rparr>"

definition example_maxAlloc :: int where
  "example_maxAlloc = 2 ^ 48"

definition doubling :: "nat \<Rightarrow> nat" where
  "doubling c = (if c = 0 then 1 else 2 * c)"

definition example_index :: "int Indexer" where
  "example_index =
     \<lparr>seed = 0, bitsize = 8, vecsize = 1, distance = example_Angular,
      hyperplane = [[0], [1], [2], [3], [4], [5], [6], [7]],
      storage = \<lparr>hash = [], pages = [], pages_cap = 0\<rparr>, lookup = Map.empty\<rparr>"

definition example_index3 :: "int Indexer" where
  "example_index3 =
     example_index
     \<lparr>storage := \<lparr>hash = [], pages = [put_item (fresh_page 1) 3, fresh_page 2], pages_cap = 2\<rparr>,
      lookup := [255 \<mapsto> 0, 1 \<mapsto> 1]\<rparr>"

subsection \<open>What Search collects\<close>

text \<open>
  \<open>bucket idx k\<close> is the list of items that the page walk of \<^verbatim>\<open>Search\<close> collects from the
  chain of key \<open>k\<close>; \<open>key_dist\<close> is the Hamming distance of the query key to the vector
  that \<^verbatim>\<open>FromUint32\<close> makes of \<open>k\<close>; \<open>keys_convert\<close> says of the two conversions, which
  are not under src/, that \<^verbatim>\<open>FromUint32(k, bitsize).Uint32()\<close> is \<open>k\<close> and that the distance
  to the query key does not panic, for the keys of the table. \<open>collected b sk m\<close> is the
  content of the first \<open>m\<close> buckets of \<open>sk\<close>; \<open>stop_at\<close> is the test of the loop before
  bucket \<open>m\<close>, where the last distance is 0 before any bucket has been drained;
  \<open>drained\<close> counts the buckets the loop drains.
\<close>

definition bucket :: "'f Indexer \<Rightarrow> 32 word \<Rightarrow> 64 word list" where
  "bucket idx k =
     (case lookup idx k of
        None \<Rightarrow> []
      | Some p \<Rightarrow>
          (case Search_pages (storage idx) (pageIterator p) [] of
             Some (Inr its) \<Rightarrow> its
           | _ \<Rightarrow> []))"

definition key_dist :: "(32 word \<Rightarrow> int \<Rightarrow> BitVector) \<Rightarrow> 'f Indexer \<Rightarrow> BitVector \<Rightarrow> 32 word \<Rightarrow> int" where
  "key_dist F idx key k = Hamming_or_0 key (F k (bitsize idx))"

definition keys_convert ::
  "(BitVector \<Rightarrow> error + 32 word) \<Rightarrow> (32 word \<Rightarrow> int \<Rightarrow> BitVector) \<Rightarrow> 'f Indexer \<Rightarrow>
   BitVector \<Rightarrow> 32 word list \<Rightarrow> bool" where
  "keys_convert U F idx key ks \<longleftrightarrow>
     list_all (\<lambda>k. U (F k (bitsize idx)) = Inr k \<and> \<not> isl (Hamming key (F k (bitsize idx)))) ks"

fun drained ::
  "int \<Rightarrow> (32 word \<Rightarrow> int) \<Rightarrow> (32 word \<Rightarrow> 64 word list) \<Rightarrow> 32 word list \<Rightarrow> nat \<Rightarrow> int \<Rightarrow> nat" where
  "drained limit d b [] n lastdist = 0"
| "drained limit d b (k # ks) n lastdist =
     (if lastdist \<noteq> d k \<and> limit \<le> int n then 0
      else Suc (drained limit d b ks (n + length (b k)) (d k)))"

definition collected :: "(32 word \<Rightarrow> 64 word list) \<Rightarrow> 32 word list \<Rightarrow> nat \<Rightarrow> 64 word list" where
  "collected b sk m = concat (map b (take m sk))"

definition last_dist :: "(32 word \<Rightarrow> int) \<Rightarrow> 32 word list \<Rightarrow> int \<Rightarrow> nat \<Rightarrow> int" where
  "last_dist d sk d0 m = (if m = 0 then d0 else d (sk ! (m - 1)))"

definition stop_at ::
  "int \<Rightarrow> (32 word \<Rightarrow> int) \<Rightarrow> (32 word \<Rightarrow> 64 word list) \<Rightarrow> 32 word list \<Rightarrow> nat \<Rightarrow> bool" where
  "stop_at limit d b sk m \<longleftrightarrow>
     last_dist d sk 0 m \<noteq> d (sk ! m) \<and> limit \<le> int (length (collected b sk m))"

subsection \<open>One bucket filled past a page\<close>

text \<open>
  The states of the scenario of the spec (all items in one bucket): \<open>adds n\<close> inserts
  the items \<open>0, ..., n - 1\<close> with the vector \<open>[1]\<close>; \<open>one_bucket c n\<close> is the index with
  one page of \<open>n\<close> items and capacity \<open>c\<close>; \<open>overflowed_1024\<close> and \<open>overflowed_1025\<close>
  are the states after 1024 and 1025 inserts when the capacity grows as in the Go runtime
  (\<open>doubling\<close>); \<open>linked_1025\<close> is the state after 1025 inserts when the first
  allocation already has room for 16 pages (\<open>roomy\<close>).
\<close>

definition filled_page :: "nat \<Rightarrow> Page" where
  "filled_page n =
     \<lparr>nitems = int n, link = - 1, items = map of_nat [0..<n] @ replicate (items_len - n) 0\<rparr>"

definition one_bucket :: "nat \<Rightarrow> nat \<Rightarrow> int Indexer" where
  "one_bucket c n =
     example_index\<lparr>storage := \<lparr>hash = [], pages = [filled_page n], pages_cap = c\<rparr>,
                   lookup := [255 \<mapsto> 0]\<rparr>"

definition roomy :: "nat \<Rightarrow> nat" where
  "roomy c = 16"

definition linked_1025 :: "int Indexer" where
  "linked_1025 =
     example_index\<lparr>storage := \<lparr>hash = [],
                                pages = [(filled_page 1023)\<lparr>link := 1\<rparr>, put_item (fresh_page 1023) 1024],
                                pages_cap = 16\<rparr>,
                   lookup := [255 \<mapsto> 0]\<rparr>"

definition adds :: "nat \<Rightarrow> (64 word \<times> int list) list" where
  "adds n = map (\<lambda>i. (of_nat i, [1])) [0..<n]"

definition overflowed_1024 :: "int Indexer" where
  "overflowed_1024 =
     example_index\<lparr>storage := \<lparr>hash = [], pages = [filled_page 1023, fresh_page 1023], pages_cap = 2\<rparr>,
                   lookup := [255 \<mapsto> 0]\<rparr>"

definition overflowed_1025 :: "int Indexer" where
  "overflowed_1025 =
     example_index\<lparr>storage := \<lparr>hash = [], pages = [filled_page 1023, fresh_page 1023, fresh_page 1024],
                                pages_cap = 4\<rparr>,
                   lookup := [255 \<mapsto> 0]\<rparr>"

section \<open>Properties of the bit vector\<close>

lemma Hamming_loop_ok:
  "\<forall>i\<in>set is. i < length (bits x) \<and> i < length (bits y) \<Longrightarrow>
   Hamming_loop x y is d = Inr (d + sum_list (map (\<lambda>i. int (popcnt ((bits x ! i) XOR (bits y ! i)))) is))"
  by (induction "is" arbitrary: d) (simp_all add: add.assoc)

lemma Hamming_loop_fail:
  "\<exists>i\<in>set is. \<not> (i < length (bits x) \<and> i < length (bits y)) \<Longrightarrow>
   Hamming_loop x y is d = Inl IndexOutOfRange"
  by (induction "is" arbitrary: d) auto

lemma Get_bit:
  "i div 8 < length (bits bv) \<Longrightarrow> Get bv i = Inr (bit (bits bv ! (i div 8)) (i mod 8))"
  by (simp add: Get_def bit_iff_and_push_bit_not_eq_0)

lemma popcnt_xor:
  "popcnt (a XOR b) = length (filter (\<lambda>j. bit a j \<noteq> bit b j) [0..<8])"
  unfolding popcnt_def
  by (rule arg_cong [where f = length], rule filter_cong) (auto simp: bit_xor_iff)

lemma popcnt_self: "popcnt (a XOR a) = 0"
  by (simp add: popcnt_def)

lemma popcnt_0: "popcnt 0 = 0"
  by (simp add: popcnt_def)

lemma filter_blocks:
  "length (filter P [0..<8 * m]) =
   sum_list (map (\<lambda>i. length (filter (\<lambda>j. P (8 * i + j)) [0..<8])) [0..<m])"
proof (induction m)
  case 0
  show ?case by simp
next
  case (Suc m)
  have split: "[0..<8 * Suc m] = [0..<8 * m] @ map (\<lambda>j. j + 8 * m) [0..<8]"
    using upt_add_eq_append [of 0 "8 * m" 8] by (simp add: map_add_upt add.commute)
  have "length (filter P (map (\<lambda>j. j + 8 * m) [0..<8])) =
        length (filter (\<lambda>j. P (8 * m + j)) [0..<8])"
    by (simp only: length_filter_map o_def add.commute)
  with Suc split show ?case by simp
qed


lemma differing_bits_eq:
  assumes "length (bits x) = length (bits y)"
  shows "int (differing_bits x y) = xor_popcnt x y (length (bits x))"
proof -
  have blk: "length (filter (\<lambda>j. Get x (8 * i + j) \<noteq> Get y (8 * i + j)) [0..<8]) =
             popcnt ((bits x ! i) XOR (bits y ! i))" if "i < length (bits x)" for i
  proof -
    have "Get x (8 * i + j) \<noteq> Get y (8 * i + j) \<longleftrightarrow> bit (bits x ! i) j \<noteq> bit (bits y ! i) j"
      if "j \<in> set [0..<8]" for j
      using that \<open>i < length (bits x)\<close> assms by (simp add: Get_bit)
    then show ?thesis
      unfolding popcnt_xor
      by (intro arg_cong [where f = length] filter_cong) auto
  qed
  have "differing_bits x y =
        sum_list (map (\<lambda>i. length (filter (\<lambda>j. Get x (8 * i + j) \<noteq> Get y (8 * i + j)) [0..<8]))
                      [0..<length (bits x)])"
    by (simp add: differing_bits_def filter_blocks)
  also have "\<dots> = sum_list (map (\<lambda>i. popcnt ((bits x ! i) XOR (bits y ! i))) [0..<length (bits x)])"
    by (intro arg_cong [where f = sum_list] map_cong) (auto simp: blk)
  finally show ?thesis
    by (simp add: xor_popcnt_def sum_list_of_nat [symmetric] o_def)
qed

lemma Hamming_eq_xor_popcnt:
  assumes "well_formed x" and "nat (ByteSize x) \<le> length (bits y)"
  shows "Hamming x y = Inr (xor_popcnt x y (nat (ByteSize x)))"
proof -
  have "length (bits x) = nat (ByteSize x)"
    using assms(1) by (simp add: well_formed_def)
  then have "\<forall>i\<in>set [0..<nat (ByteSize x)]. i < length (bits x) \<and> i < length (bits y)"
    using assms(2) by simp
  then show ?thesis
    unfolding Hamming_def xor_popcnt_def by (simp only: Hamming_loop_ok) simp
qed

lemma Hamming_short:
  assumes "length (bits y) < nat (ByteSize x)"
  shows "Hamming x y = Inl IndexOutOfRange"
proof -
  have "length (bits y) \<in> set [0..<nat (ByteSize x)]"
    using assms by simp
  then have "\<exists>i\<in>set [0..<nat (ByteSize x)]. \<not> (i < length (bits x) \<and> i < length (bits y))"
    by blast
  then show ?thesis
    unfolding Hamming_def by (rule Hamming_loop_fail)
qed

lemma xor_popcnt_self: "xor_popcnt x x n = 0"
  by (simp add: xor_popcnt_def popcnt_0)

lemma xor_popcnt_sym: "xor_popcnt x y n = xor_popcnt y x n"
  by (simp add: xor_popcnt_def xor.commute)

lemma differing_set_clear:
  assumes wx: "well_formed x" and wy: "well_formed y"
    and sz: "size_bv y = size_bv x"
    and sx: "all_set x" and sy: "all_clear y"
    and px: "padding_clear x" and py: "padding_clear y"
  shows "int (differing_bits x y) = max 0 (size_bv x)"
proof -
  let ?n = "nat (size_bv x)"
  have len: "length (bits x) = nat (ByteSize x)" "length (bits y) = nat (ByteSize x)"
    using wx wy sz by (simp_all add: well_formed_def ByteSize_def)
  have le: "?n \<le> 8 * length (bits x)"
    using len by (simp add: ByteSize_def)
  have low: "Get x i \<noteq> Get y i" if "i < ?n" for i
    using sx sy sz that by (simp add: all_set_def all_clear_def list_all_iff)
  have high: "Get x i = Get y i" if "?n \<le> i" "i < 8 * length (bits x)" for i
    using px py sz that len by (simp add: padding_clear_def list_all_iff)
  have "[0..<8 * length (bits x)] = [0..<?n] @ [?n..<8 * length (bits x)]"
    using le upt_add_eq_append [of 0 ?n "8 * length (bits x) - ?n"] by simp
  then have "differing_bits x y =
     length (filter (\<lambda>i. Get x i \<noteq> Get y i) [0..<?n]) +
     length (filter (\<lambda>i. Get x i \<noteq> Get y i) [?n..<8 * length (bits x)])"
    by (simp add: differing_bits_def)
  also have "length (filter (\<lambda>i. Get x i \<noteq> Get y i) [0..<?n]) = ?n"
    using low by (simp add: filter_id_conv)
  also have "filter (\<lambda>i. Get x i \<noteq> Get y i) [?n..<8 * length (bits x)] = []"
    using high by (simp add: filter_empty_conv)
  finally show ?thesis by simp
qed


lemma Get_Set_same:
  "i div 8 < length (bits bv) \<Longrightarrow> \<exists>bv'. Set bv i = Inr bv' \<and> Get bv' i = Inr True"
  by (simp add: Set_def Get_bit bit_or_iff bit_exp_iff possible_bit_word)

lemma Get_Unset_same:
  "i div 8 < length (bits bv) \<Longrightarrow> \<exists>bv'. Unset bv i = Inr bv' \<and> Get bv' i = Inr False"
  by (simp add: Unset_def Get_bit bit_and_iff bit_not_iff bit_exp_iff possible_bit_word)

lemma Get_New:
  "New sz = Inr bv \<Longrightarrow> i div 8 < length (bits bv) \<Longrightarrow> Get bv i = Inr False"
  by (auto simp: New_def Let_def Get_def split: if_splits)

text \<open>
  Claim C1. The claim asks for a buffer of \<open>ceil(size/8)\<close> bytes, so that every index
  below \<open>size\<close> can be set, cleared and read. \<^verbatim>\<open>New\<close> allocates \<open>size >> 3\<close> bytes
  instead, although \<^verbatim>\<open>ByteSize\<close> of the same vector is \<open>(size+7) >> 3\<close>: a vector of
  4 bits has no byte at all, and \<^verbatim>\<open>Set\<close>, \<^verbatim>\<open>Unset\<close> and \<^verbatim>\<open>Get\<close> at index 0 panic.
\<close>

theorem C1_New_drops_partial_byte:
  "New 4 = Inr \<lparr>size_bv = 4, bits = []\<rparr> \<and>
   ByteSize \<lparr>size_bv = 4, bits = []\<rparr> = 1 \<and>
   Set \<lparr>size_bv = 4, bits = []\<rparr> 0 = Inl IndexOutOfRange \<and>
   Unset \<lparr>size_bv = 4, bits = []\<rparr> 0 = Inl IndexOutOfRange \<and>
   Get \<lparr>size_bv = 4, bits = []\<rparr> 0 = Inl IndexOutOfRange"
  by (simp add: New_def ByteSize_def Set_def Unset_def Get_def)

text \<open>
  Claim C7. Parsing and rendering should reproduce the digits of every valid input. With
  the short buffer of \<^verbatim>\<open>New\<close>, \<^verbatim>\<open>Scan\<close> of the one-digit string \<open>1\<close> panics in
  \<^verbatim>\<open>Set\<close>, and the vector scanned from \<open>0\<close> cannot be rendered: \<^verbatim>\<open>String\<close> panics in
  \<^verbatim>\<open>Get\<close>.
\<close>

theorem C7_Scan_fails_on_partial_byte:
  "Scan ''1'' = Inl IndexOutOfRange \<and>
   Scan ''0'' = Inr \<lparr>size_bv = 1, bits = []\<rparr> \<and>
   String_bv \<lparr>size_bv = 1, bits = []\<rparr> = Inl IndexOutOfRange"
  by (simp add: Scan_def New_def Set_def String_bv_def Get_def)

text \<open>
  What \<^verbatim>\<open>Hamming\<close> computes on vectors whose buffers hold their \<^verbatim>\<open>ByteSize\<close> bytes and
  whose byte lengths agree: the sum over the bytes of the population count of their XOR,
  which is the number of bit positions of the buffers where the two vectors differ; the
  distance of a vector to itself is 0, the distance is symmetric, and an all-set and an
  all-clear vector of \<open>n\<close> bits (padding bits clear) are at distance \<open>n\<close>.
\<close>

lemma Hamming_counts_differing_bits:
  assumes "well_formed x" and "well_formed y" and "ByteSize x = ByteSize y"
  shows "Hamming x y = Inr (xor_popcnt x y (nat (ByteSize x))) \<and>
         Hamming x y = Inr (int (differing_bits x y)) \<and>
         Hamming x x = Inr 0 \<and>
         Hamming x y = Hamming y x \<and>
         (size_bv x = int n \<and> size_bv y = int n \<and> all_set x \<and> all_clear y \<and>
          padding_clear x \<and> padding_clear y \<longrightarrow> Hamming x y = Inr (int n))"
proof -
  have lx: "length (bits x) = nat (ByteSize x)" and ly: "length (bits y) = nat (ByteSize x)"
    using assms by (simp_all add: well_formed_def)
  have h: "Hamming x y = Inr (xor_popcnt x y (nat (ByteSize x)))"
    using assms(1) ly by (simp add: Hamming_eq_xor_popcnt)
  have d: "int (differing_bits x y) = xor_popcnt x y (nat (ByteSize x))"
    using differing_bits_eq [of x y] lx ly by simp
  have s: "Hamming x x = Inr 0"
    using assms(1) lx by (simp add: Hamming_eq_xor_popcnt xor_popcnt_self)
  have "Hamming y x = Inr (xor_popcnt y x (nat (ByteSize y)))"
    using assms(2,3) lx by (simp add: Hamming_eq_xor_popcnt)
  then have c: "Hamming x y = Hamming y x"
    using h assms(3) by (simp add: xor_popcnt_sym)
  have e: "Hamming x y = Inr (int n)"
    if "size_bv x = int n" "size_bv y = int n" "all_set x" "all_clear y"
       "padding_clear x" "padding_clear y"
    using differing_set_clear [of x y] that assms(1,2) h d by simp
  show ?thesis using h d s c e by simp
qed

text \<open>The lemma at the 12-bit vectors \<open>11111111 1111\<close> and \<open>00000000 0000\<close>, given with
  the two bytes a well-formed buffer has.\<close>

lemma Hamming_counts_differing_bits_example:
  "well_formed \<lparr>size_bv = 12, bits = [255, 15]\<rparr> \<and>
   well_formed \<lparr>size_bv = 12, bits = [0, 0]\<rparr> \<and>
   ByteSize \<lparr>size_bv = 12, bits = [255, 15]\<rparr> = ByteSize \<lparr>size_bv = 12, bits = [0, 0]\<rparr> \<and>
   all_set \<lparr>size_bv = 12, bits = [255, 15]\<rparr> \<and>
   all_clear \<lparr>size_bv = 12, bits = [0, 0]\<rparr> \<and>
   padding_clear \<lparr>size_bv = 12, bits = [255, 15]\<rparr> \<and>
   padding_clear \<lparr>size_bv = 12, bits = [0, 0]\<rparr> \<and>
   Hamming \<lparr>size_bv = 12, bits = [255, 15]\<rparr> \<lparr>size_bv = 12, bits = [0, 0]\<rparr> = Inr 12 \<and>
   differing_bits \<lparr>size_bv = 12, bits = [255, 15]\<rparr> \<lparr>size_bv = 12, bits = [0, 0]\<rparr> = 12"
proof -
  have a: "well_formed \<lparr>size_bv = 12, bits = [255, 15]\<rparr>"
    and b: "well_formed \<lparr>size_bv = 12, bits = [0, 0]\<rparr>"
    and c: "ByteSize \<lparr>size_bv = 12, bits = [255, 15]\<rparr> = ByteSize \<lparr>size_bv = 12, bits = [0, 0]\<rparr>"
    by (simp_all add: well_formed_def ByteSize_def)
  have d: "all_set \<lparr>size_bv = 12, bits = [255, 15]\<rparr>"
    and e: "all_clear \<lparr>size_bv = 12, bits = [0, 0]\<rparr>"
    and f: "padding_clear \<lparr>size_bv = 12, bits = [255, 15]\<rparr>"
    and g: "padding_clear \<lparr>size_bv = 12, bits = [0, 0]\<rparr>"
    by (simp_all add: all_set_def all_clear_def padding_clear_def Get_def upt_conv_Cons)
  note inst = Hamming_counts_differing_bits [OF a b c, of 12]
  have sz: "size_bv \<lparr>size_bv = 12, bits = [255, 15]\<rparr> = int 12"
    "size_bv \<lparr>size_bv = 12, bits = [0, 0]\<rparr> = int 12"
    by simp_all
  have "Hamming \<lparr>size_bv = 12, bits = [255, 15]\<rparr> \<lparr>size_bv = 12, bits = [0, 0]\<rparr> = Inr (int 12)"
    using inst sz d e f g by blast
  then have h: "Hamming \<lparr>size_bv = 12, bits = [255, 15]\<rparr> \<lparr>size_bv = 12, bits = [0, 0]\<rparr> = Inr 12"
    by simp
  moreover have "Hamming \<lparr>size_bv = 12, bits = [255, 15]\<rparr> \<lparr>size_bv = 12, bits = [0, 0]\<rparr> =
      Inr (int (differing_bits \<lparr>size_bv = 12, bits = [255, 15]\<rparr> \<lparr>size_bv = 12, bits = [0, 0]\<rparr>))"
    using inst by blast
  ultimately have "differing_bits \<lparr>size_bv = 12, bits = [255, 15]\<rparr> \<lparr>size_bv = 12, bits = [0, 0]\<rparr> = 12"
    by simp
  with h a b c d e f g show ?thesis by blast
qed

text \<open>
  Claim C6 says that \<^verbatim>\<open>Hamming(x, x)\<close> is 0 for every vector and that an all-set and an
  all-clear vector of \<open>n\<close> bits are at distance \<open>n\<close>. For the vectors that \<^verbatim>\<open>New\<close>
  builds with a size that is not a multiple of 8 the code panics instead: the vector of
  4 bits has no byte, its \<^verbatim>\<open>ByteSize\<close> is 1, and \<^verbatim>\<open>Hamming\<close> reads \<^verbatim>\<open>x.bits[0]\<close>; nor can
  its bits be set.
\<close>

theorem C6_Hamming_panics_on_New_vectors:
  "New 4 = Inr \<lparr>size_bv = 4, bits = []\<rparr> \<and>
   ByteSize \<lparr>size_bv = 4, bits = []\<rparr> = 1 \<and>
   Hamming \<lparr>size_bv = 4, bits = []\<rparr> \<lparr>size_bv = 4, bits = []\<rparr> = Inl IndexOutOfRange \<and>
   Set \<lparr>size_bv = 4, bits = []\<rparr> 3 = Inl IndexOutOfRange"
  by (simp add: New_def ByteSize_def Hamming_def Set_def upt_conv_Cons)

text \<open>
  Claim C8, as stated, fails: \<^verbatim>\<open>Hamming\<close> does not take the minimum of the two byte
  lengths. With a first operand of two bytes and a second of one byte it reads
  \<^verbatim>\<open>y.bits[1]\<close> and panics.
\<close>

theorem C8_Hamming_shorter_second_counterexample:
  "ByteSize \<lparr>size_bv = 16, bits = [0, 0]\<rparr> = 2 \<and>
   ByteSize \<lparr>size_bv = 8, bits = [0]\<rparr> = 1 \<and>
   Hamming \<lparr>size_bv = 16, bits = [0, 0]\<rparr> \<lparr>size_bv = 8, bits = [0]\<rparr> = Inl IndexOutOfRange \<and>
   Hamming \<lparr>size_bv = 16, bits = [0, 0]\<rparr> \<lparr>size_bv = 8, bits = [0]\<rparr>
     \<noteq> Inr (xor_popcnt \<lparr>size_bv = 16, bits = [0, 0]\<rparr> \<lparr>size_bv = 8, bits = [0]\<rparr> (min 2 1))"
  by (simp add: ByteSize_def Hamming_def upt_conv_Cons)

text \<open>
  Claim C8, amended. \<^verbatim>\<open>Hamming(x, y)\<close> runs over \<^verbatim>\<open>x.ByteSize()\<close> bytes, the byte
  length computed from the size of its first operand, and takes no minimum. When the
  packed buffers of both operands hold at least that many bytes it returns the XOR
  population count over those bytes; when either buffer is shorter it panics with an
  index out of range. Nothing is assumed of the two vectors.
\<close>

theorem C8_Hamming_runs_over_first_operand:
  "(nat (ByteSize x) \<le> length (bits x) \<and> nat (ByteSize x) \<le> length (bits y) \<longrightarrow>
      Hamming x y = Inr (xor_popcnt x y (nat (ByteSize x)))) \<and>
   (length (bits x) < nat (ByteSize x) \<or> length (bits y) < nat (ByteSize x) \<longrightarrow>
      Hamming x y = Inl IndexOutOfRange)"
proof (intro conjI impI)
  assume "nat (ByteSize x) \<le> length (bits x) \<and> nat (ByteSize x) \<le> length (bits y)"
  then have "\<forall>i\<in>set [0..<nat (ByteSize x)]. i < length (bits x) \<and> i < length (bits y)"
    by simp
  then show "Hamming x y = Inr (xor_popcnt x y (nat (ByteSize x)))"
    unfolding Hamming_def xor_popcnt_def by (simp only: Hamming_loop_ok) simp
next
  assume "length (bits x) < nat (ByteSize x) \<or> length (bits y) < nat (ByteSize x)"
  then have "min (length (bits x)) (length (bits y)) \<in> set [0..<nat (ByteSize x)]"
    by auto
  moreover have "\<not> (min (length (bits x)) (length (bits y)) < length (bits x) \<and>
                    min (length (bits x)) (length (bits y)) < length (bits y))"
    by simp
  ultimately have "\<exists>i\<in>set [0..<nat (ByteSize x)]. \<not> (i < length (bits x) \<and> i < length (bits y))"
    by blast
  then show "Hamming x y = Inl IndexOutOfRange"
    unfolding Hamming_def by (rule Hamming_loop_fail)
qed

text \<open>
  The theorem of C8 at a one-byte and a two-byte vector, in both orders, and at the
  vectors that \<^verbatim>\<open>New(4)\<close> and \<^verbatim>\<open>New(16)\<close> build: the first has no byte although its
  byte length is 1, so \<^verbatim>\<open>Hamming\<close> panics with it as first operand.
\<close>

theorem C8_Hamming_runs_over_first_operand_witness:
  "Hamming \<lparr>size_bv = 8, bits = [3]\<rparr> \<lparr>size_bv = 16, bits = [5, 1]\<rparr> = Inr 2 \<and>
   Hamming \<lparr>size_bv = 16, bits = [5, 1]\<rparr> \<lparr>size_bv = 8, bits = [3]\<rparr> = Inl IndexOutOfRange \<and>
   New 4 = Inr \<lparr>size_bv = 4, bits = []\<rparr> \<and>
   New 16 = Inr \<lparr>size_bv = 16, bits = [0, 0]\<rparr> \<and>
   ByteSize \<lparr>size_bv = 4, bits = []\<rparr> = 1 \<and>
   ByteSize \<lparr>size_bv = 16, bits = [0, 0]\<rparr> = 2 \<and>
   Hamming \<lparr>size_bv = 4, bits = []\<rparr> \<lparr>size_bv = 16, bits = [0, 0]\<rparr> = Inl IndexOutOfRange"
proof -
  have c: "xor_popcnt \<lparr>size_bv = 8, bits = [3]\<rparr> \<lparr>size_bv = 16, bits = [5, 1]\<rparr> 1 = 2"
    by (simp add: xor_popcnt_def popcnt_def upt_conv_Cons)
  have n: "New 4 = Inr \<lparr>size_bv = 4, bits = []\<rparr>" "New 16 = Inr \<lparr>size_bv = 16, bits = [0, 0]\<rparr>"
    by (simp_all add: New_def numeral_2_eq_2)
  show ?thesis
    using C8_Hamming_runs_over_first_operand
            [of "\<lparr>size_bv = 8, bits = [3]\<rparr>" "\<lparr>size_bv = 16, bits = [5, 1]\<rparr>"]
          C8_Hamming_runs_over_first_operand
            [of "\<lparr>size_bv = 16, bits = [5, 1]\<rparr>" "\<lparr>size_bv = 8, bits = [3]\<rparr>"]
          C8_Hamming_runs_over_first_operand
            [of "\<lparr>size_bv = 4, bits = []\<rparr>" "\<lparr>size_bv = 16, bits = [0, 0]\<rparr>"]
          c n
    by (simp add: ByteSize_def)
qed

section \<open>Properties of the storage and the indexer\<close>

lemma int32_id: "- (2 ^ 31) \<le> n \<Longrightarrow> n < 2 ^ 31 \<Longrightarrow> int32 n = n"
  by (simp add: int32_def sint_sbintrunc' signed_take_bit_int_eq_self)

lemma int32_minus1: "int32 (- 1) = - 1"
  by (simp add: int32_id)

lemma chain_nil: "chain ps (- 1) ns \<longleftrightarrow> ns = []"
  by (cases ns) auto

lemma chain_exists:
  "storage_ok s \<Longrightarrow> p = - 1 \<or> (0 \<le> p \<and> p < int (length (pages s))) \<Longrightarrow>
   \<exists>ns. chain (pages s) p ns \<and> sorted_wrt (<) ns \<and> (\<forall>n\<in>set ns. p \<le> int n)"
proof (induction "length (pages s) - nat p" arbitrary: p rule: less_induct)
  case less
  show ?case
  proof (cases "p = - 1")
    case True
    then have "chain (pages s) p []" by simp
    then show ?thesis by fastforce
  next
    case False
    with less.prems have rng: "0 \<le> p" "p < int (length (pages s))" by auto
    let ?q = "link (pages s ! nat p)"
    have ok: "page_ok (pages s) (nat p)"
      using less.prems(1) rng by (simp add: storage_ok_def)
    then have q: "?q = - 1 \<or> (p < ?q \<and> ?q < int (length (pages s)))"
      using rng by (simp add: page_ok_def)
    then have "length (pages s) - nat ?q < length (pages s) - nat p \<or> ?q = - 1"
      using rng by auto
    then obtain ns where ns: "chain (pages s) ?q ns" "sorted_wrt (<) ns" "\<forall>n\<in>set ns. ?q \<le> int n"
    proof
      assume "length (pages s) - nat ?q < length (pages s) - nat p"
      from less.hyps [OF this less.prems(1)] q rng that show ?thesis by auto
    next
      assume "?q = - 1"
      then have "chain (pages s) ?q []" by simp
      with that show ?thesis by fastforce
    qed
    have "chain (pages s) p (nat p # ns)"
      using rng ns(1) by simp
    moreover have above: "\<forall>n\<in>set ns. p < int n"
    proof (cases "?q = - 1")
      case True
      with ns(1) show ?thesis by (simp add: chain_nil)
    next
      case False
      with q ns(3) show ?thesis by fastforce
    qed
    then have "sorted_wrt (<) (nat p # ns)"
      using ns(2) rng by auto
    moreover have "\<forall>n\<in>set (nat p # ns). p \<le> int n"
      using above rng by auto
    ultimately show ?thesis by blast
  qed
qed

lemma chain_last:
  "chain ps p ns \<Longrightarrow> ns \<noteq> [] \<Longrightarrow> last ns < length ps \<and> link (ps ! last ns) = - 1"
  by (induction ns arbitrary: p) (auto simp: chain_nil)

lemma chain_in_range: "chain ps p ns \<Longrightarrow> n \<in> set ns \<Longrightarrow> n < length ps"
  by (induction ns arbitrary: p) auto

lemma pageIter_next_end: "pageIter_next s \<lparr>currno = c, nextno = - 1\<rparr> = Inr (False, \<lparr>currno = c, nextno = - 1\<rparr>)"
  by (simp add: pageIter_next_def)

lemma pageIter_next_step:
  "n < length (pages s) \<Longrightarrow>
   pageIter_next s \<lparr>currno = c, nextno = int n\<rparr> =
     Inr (True, \<lparr>currno = int n, nextno = link (pages s ! n)\<rparr>)"
  by (simp add: pageIter_next_def getPage_def Next_def)

lemma Add_walk_chain:
  "chain (pages s) p ns \<Longrightarrow>
   Add_walk s \<lparr>currno = c, nextno = p\<rparr> pg pn =
     Some (Inr (if ns = [] then (pg, pn) else (Some (int (last ns)), int (last ns))))"
proof (induction ns arbitrary: c p pg pn)
  case Nil
  then show ?case
    by (subst Add_walk.simps) (simp add: pageIter_next_end)
next
  case (Cons n ns)
  then have n: "p = int n" "n < length (pages s)" and rest: "chain (pages s) (link (pages s ! n)) ns"
    by simp_all
  show ?case
    by (subst Add_walk.simps) (simp add: n pageIter_next_step Cons.IH [OF rest])
qed

lemma Gets_ok: "page_ok ps n \<Longrightarrow> Gets (ps ! n) = Inr (page_items (ps ! n))"
  by (simp add: page_ok_def Gets_def page_items_def)

lemma Search_pages_chain:
  "chain (pages s) p ns \<Longrightarrow> storage_ok s \<Longrightarrow>
   Search_pages s \<lparr>currno = c, nextno = p\<rparr> acc =
     Some (Inr (acc @ concat (map (\<lambda>n. page_items (pages s ! n)) ns)))"
proof (induction ns arbitrary: c p acc)
  case Nil
  then show ?case
    by (subst Search_pages.simps) (simp add: pageIter_next_end)
next
  case (Cons n ns)
  then have n: "p = int n" "n < length (pages s)" and rest: "chain (pages s) (link (pages s ! n)) ns"
    by simp_all
  have g: "Gets (pages s ! n) = Inr (page_items (pages s ! n))"
    using Cons.prems(2) n by (simp add: storage_ok_def Gets_ok)
  show ?case
    by (subst Search_pages.simps)
       (simp add: n pageIter_next_step getPage_def g Cons.IH [OF rest Cons.prems(2)])
qed

lemma Dump_pages_chain:
  "chain (pages s) p ns \<Longrightarrow>
   Dump_pages s \<lparr>currno = c, nextno = p\<rparr> k l =
     Some (Inr (k + sum_list (map (\<lambda>n. nitems (pages s ! n)) ns), l @ map int ns))"
proof (induction ns arbitrary: c p k l)
  case Nil
  then show ?case
    by (subst Dump_pages.simps) (simp add: pageIter_next_end)
next
  case (Cons n ns)
  then have n: "p = int n" "n < length (pages s)" and rest: "chain (pages s) (link (pages s ! n)) ns"
    by simp_all
  show ?case
    by (subst Dump_pages.simps)
       (simp add: n pageIter_next_step getPage_def CountItems_def Cons.IH [OF rest] add.assoc)
qed

lemma Page_Add_fresh: "Page_Add (Init Page_zero) itemid = Inr (fresh_page itemid)"
  by (simp add: Page_Add_def Init_def Link_def Page_zero_def int32_minus1 fresh_page_def items_len_def)

lemma Page_Add_put:
  "0 \<le> nitems p \<Longrightarrow> nitems p \<le> int (length (items p)) \<Longrightarrow> \<not> Full p \<Longrightarrow>
   Page_Add p itemid = Inr (put_item p itemid)"
  by (simp add: Page_Add_def Full_def put_item_def Let_def)

lemma Storage_Add_not_full:
  assumes "chain (pages s) p ns" and "ns \<noteq> []" and "\<not> Full (pages s ! last ns)"
    and "0 \<le> nitems (pages s ! last ns)"
    and "nitems (pages s ! last ns) \<le> int (length (items (pages s ! last ns)))"
  shows "Storage_Add grow s itemid p =
         Some (Inr (s\<lparr>pages := (pages s)[last ns := put_item (pages s ! last ns) itemid]\<rparr>,
                    int (last ns)))"
  using assms
  by (simp add: Storage_Add_def pageIterator_def Add_walk_chain [OF assms(1)] Page_Add_put)

lemma Storage_Add_full:
  assumes "chain (pages s) p ns" and "ns \<noteq> []" and "Full (pages s ! last ns)"
  shows "Storage_Add grow s itemid p =
         Some (Inr (if pages_cap s \<le> length (pages s)
                    then s\<lparr>pages := pages s @ [fresh_page itemid], pages_cap := grow (pages_cap s)\<rparr>
                    else s\<lparr>pages := (pages s)[last ns := Link (pages s ! last ns) (int (length (pages s)))]
                                     @ [fresh_page itemid]\<rparr>,
                    int (length (pages s))))"
proof -
  have t: "last ns < length (pages s)"
    using chain_last [OF assms(1,2)] by simp
  show ?thesis
    using assms(2,3) t
    by (simp add: Storage_Add_def pageIterator_def Add_walk_chain [OF assms(1)] allocatePage_def
        Let_def nth_append list_update_append Page_Add_fresh)
qed

lemma page_ok_fresh_last:
  "page_ok (ps @ [fresh_page x]) (length ps)"
  by (simp add: page_ok_def fresh_page_def items_len_def)

lemma page_ok_Init_last:
  "page_ok (ps @ [Init Page_zero]) (length ps)"
  by (simp add: page_ok_def Init_def Link_def Page_zero_def int32_minus1 items_len_def)

lemma page_ok_append_old:
  "i < length ps \<Longrightarrow> page_ok ps i \<Longrightarrow> page_ok (ps @ [q]) i"
  by (auto simp: page_ok_def nth_append)

lemma storage_ok_append:
  assumes "storage_ok s" and "page_ok (pages s @ [q]) (length (pages s))"
  shows "storage_ok (s\<lparr>pages := pages s @ [q], pages_cap := c\<rparr>)"
  unfolding storage_ok_def
proof (intro allI impI)
  fix i assume "i < length (pages (s\<lparr>pages := pages s @ [q], pages_cap := c\<rparr>))"
  then have "i < length (pages s) \<or> i = length (pages s)" by auto
  then show "page_ok (pages (s\<lparr>pages := pages s @ [q], pages_cap := c\<rparr>)) i"
    using assms by (auto simp: storage_ok_def page_ok_append_old)
qed

lemma storage_ok_put:
  assumes "storage_ok s" and "t < length (pages s)" and "\<not> Full (pages s ! t)"
  shows "storage_ok (s\<lparr>pages := (pages s)[t := put_item (pages s ! t) x]\<rparr>)"
  unfolding storage_ok_def
proof (intro allI impI)
  fix i assume "i < length (pages (s\<lparr>pages := (pages s)[t := put_item (pages s ! t) x]\<rparr>))"
  then have i: "i < length (pages s)" by simp
  then have ok: "page_ok (pages s) i"
    using assms(1) by (simp add: storage_ok_def)
  show "page_ok (pages (s\<lparr>pages := (pages s)[t := put_item (pages s ! t) x]\<rparr>)) i"
  proof (cases "i = t")
    case True
    with ok assms(2,3) show ?thesis
      by (auto simp: page_ok_def put_item_def Full_def)
  next
    case False
    with ok i show ?thesis by (simp add: page_ok_def)
  qed
qed

lemma storage_ok_link:
  assumes "storage_ok s" and "t < length (pages s)" and "int (length (pages s)) < 2 ^ 31"
  shows "storage_ok (s\<lparr>pages := (pages s)[t := Link (pages s ! t) (int (length (pages s)))]\<rparr>
                      \<lparr>pages := (pages s)[t := Link (pages s ! t) (int (length (pages s)))] @ [fresh_page x]\<rparr>)"
  unfolding storage_ok_def
proof (intro allI impI)
  let ?ps = "(pages s)[t := Link (pages s ! t) (int (length (pages s)))] @ [fresh_page x]"
  let ?s = "s\<lparr>pages := (pages s)[t := Link (pages s ! t) (int (length (pages s)))]\<rparr>\<lparr>pages := ?ps\<rparr>"
  fix i assume "i < length (pages ?s)"
  then consider "i = length (pages s)" | "i = t" | "i < length (pages s)" "i \<noteq> t"
    by fastforce
  then show "page_ok (pages ?s) i"
  proof cases
    case 1
    have "page_ok ((pages s)[t := Link (pages s ! t) (int (length (pages s)))] @ [fresh_page x])
            (length ((pages s)[t := Link (pages s ! t) (int (length (pages s)))]))"
      by (rule page_ok_fresh_last)
    with 1 show ?thesis by simp
  next
    case 2
    have "page_ok (pages s) t"
      using assms(1,2) by (simp add: storage_ok_def)
    moreover have "int32 (int (length (pages s))) = int (length (pages s))"
      using assms(3) by (simp add: int32_id)
    ultimately show ?thesis
      using 2 assms(2) by (simp add: page_ok_def nth_append Link_def)
  next
    case 3
    have "page_ok (pages s) i"
      using assms(1) 3 by (simp add: storage_ok_def)
    with 3 show ?thesis
      by (auto simp: page_ok_def nth_append)
  qed
qed

lemma Storage_Add_ok:
  assumes ok: "storage_ok s" and p: "0 \<le> p" "p < int (length (pages s))"
    and small: "int (length (pages s)) < 2 ^ 31"
  shows "\<exists>s' pn. Storage_Add grow s itemid p = Some (Inr (s', pn)) \<and> storage_ok s' \<and>
           length (pages s) \<le> length (pages s') \<and> length (pages s') \<le> Suc (length (pages s)) \<and>
           (\<forall>ns. chain (pages s) p ns \<and> \<not> Full (pages s ! last ns) \<longrightarrow>
                 length (pages s') = length (pages s))"
proof -
  obtain ns where ns: "chain (pages s) p ns"
    using chain_exists [OF ok, of p] p by blast
  have ne: "ns \<noteq> []"
    using ns p(1) by (cases ns) auto
  have t: "last ns < length (pages s)"
    using chain_last [OF ns ne] by simp
  have tok: "page_ok (pages s) (last ns)"
    using ok t by (simp add: storage_ok_def)
  have uniq: "ms = ns" if "chain (pages s) p ms" for ms
    using that ns by (induction ms arbitrary: p ns) (case_tac ns; auto)+
  show ?thesis
  proof (cases "Full (pages s ! last ns)")
    case False
    have "Storage_Add grow s itemid p =
          Some (Inr (s\<lparr>pages := (pages s)[last ns := put_item (pages s ! last ns) itemid]\<rparr>,
                     int (last ns)))"
      using tok by (intro Storage_Add_not_full [OF ns ne False]) (simp_all add: page_ok_def)
    moreover have "storage_ok (s\<lparr>pages := (pages s)[last ns := put_item (pages s ! last ns) itemid]\<rparr>)"
      by (rule storage_ok_put [OF ok t False])
    ultimately show ?thesis by simp
  next
    case True
    note eq = Storage_Add_full [OF ns ne True, of grow itemid]
    show ?thesis
    proof (cases "pages_cap s \<le> length (pages s)")
      case moved: True
      have "storage_ok (s\<lparr>pages := pages s @ [fresh_page itemid], pages_cap := grow (pages_cap s)\<rparr>)"
        by (rule storage_ok_append [OF ok page_ok_fresh_last])
      with eq moved True uniq show ?thesis by auto
    next
      case False
      have "storage_ok (s\<lparr>pages := (pages s)[last ns := Link (pages s ! last ns) (int (length (pages s)))]\<rparr>
               \<lparr>pages := (pages s)[last ns := Link (pages s ! last ns) (int (length (pages s)))]
                                     @ [fresh_page itemid]\<rparr>)"
        by (rule storage_ok_link [OF ok t small])
      with eq False True uniq show ?thesis by auto
    qed
  qed
qed

lemma chain_unique: "chain ps p ms \<Longrightarrow> chain ps p ns \<Longrightarrow> ms = ns"
proof (induction ms arbitrary: p ns)
  case Nil
  then show ?case by (simp add: chain_nil)
next
  case (Cons m ms)
  then show ?case by (cases ns) auto
qed

lemma Indexer_Add_known:
  assumes ok: "index_ok idx" and small: "int (length (pages (storage idx))) < 2 ^ 31"
    and key: "distance idx (hyperplane idx) vec = Inr key" and k: "U key = Inr k"
    and hd: "lookup idx k = Some p"
  shows "\<exists>s' pn. Storage_Add grow (storage idx) itemid p = Some (Inr (s', pn)) \<and>
           Indexer_Add grow U idx itemid vec = Some (Inr (idx\<lparr>storage := s'\<rparr>)) \<and>
           storage_ok s' \<and> length (pages (storage idx)) \<le> length (pages s') \<and>
           length (pages s') \<le> Suc (length (pages (storage idx)))"
proof -
  have p: "0 \<le> p" "p < int (length (pages (storage idx)))"
    using ok hd by (auto simp: index_ok_def heads_ok_def)
  have sok: "storage_ok (storage idx)"
    using ok by (simp add: index_ok_def)
  from Storage_Add_ok [OF sok p small, of grow itemid]
  obtain s' pn where "Storage_Add grow (storage idx) itemid p = Some (Inr (s', pn))"
    "storage_ok s'" "length (pages (storage idx)) \<le> length (pages s')"
    "length (pages s') \<le> Suc (length (pages (storage idx)))"
    by blast
  then show ?thesis
    by (simp add: Indexer_Add_def key k hd)
qed

lemma Indexer_Add_new:
  assumes ok: "index_ok idx"
    and key: "distance idx (hyperplane idx) vec = Inr key" and k: "U key = Inr k"
    and hd: "lookup idx k = None"
  shows "Indexer_Add grow U idx itemid vec =
         Some (Inr (idx\<lparr>storage := (storage idx)\<lparr>pages := pages (storage idx) @ [fresh_page itemid],
                          pages_cap := (if length (pages (storage idx)) < pages_cap (storage idx)
                                        then pages_cap (storage idx) else grow (pages_cap (storage idx)))\<rparr>,
                        lookup := (lookup idx)(k \<mapsto> int (length (pages (storage idx))))\<rparr>))"
proof -
  let ?s = "storage idx"
  let ?n = "length (pages ?s)"
  let ?c = "if ?n < pages_cap ?s then pages_cap ?s else grow (pages_cap ?s)"
  let ?s1 = "?s\<lparr>pages := pages ?s @ [Init Page_zero], pages_cap := ?c\<rparr>"
  have alloc: "allocatePage grow ?s = (?s1, int ?n)"
    by (simp add: allocatePage_def Let_def)
  have ch: "chain (pages ?s1) (int ?n) [?n]"
    by (simp add: Init_def Link_def int32_minus1)
  have nf: "\<not> Full (pages ?s1 ! last [?n])"
    by (simp add: Full_def Init_def Link_def Page_zero_def items_len_def)
  have "Storage_Add grow ?s1 itemid (int ?n) =
        Some (Inr (?s1\<lparr>pages := (pages ?s1)[last [?n] := put_item (pages ?s1 ! last [?n]) itemid]\<rparr>,
                   int (last [?n])))"
    by (rule Storage_Add_not_full [OF ch _ nf])
       (simp_all add: Init_def Link_def Page_zero_def)
  moreover have "put_item (Init Page_zero) itemid = fresh_page itemid"
    by (simp add: put_item_def Init_def Link_def Page_zero_def fresh_page_def int32_minus1)
  ultimately have "Storage_Add grow ?s1 itemid (int ?n) =
        Some (Inr (?s\<lparr>pages := pages ?s @ [fresh_page itemid], pages_cap := ?c\<rparr>, int ?n))"
    by simp
  then show ?thesis
    by (simp add: Indexer_Add_def key k hd alloc)
qed

lemma Indexer_Add_ok:
  assumes ok: "index_ok idx" and small: "int (length (pages (storage idx))) < 2 ^ 31"
    and res: "Indexer_Add grow U idx itemid vec = Some (Inr idx')"
  shows "index_ok idx' \<and> length (pages (storage idx)) \<le> length (pages (storage idx')) \<and>
         length (pages (storage idx')) \<le> Suc (length (pages (storage idx)))"
proof -
  from res obtain key where key: "distance idx (hyperplane idx) vec = Inr key"
    by (auto simp: Indexer_Add_def split: sum.splits)
  from res key obtain k where k: "U key = Inr k"
    by (auto simp: Indexer_Add_def split: sum.splits)
  show ?thesis
  proof (cases "lookup idx k")
    case None
    note eq = Indexer_Add_new [where U = U, OF ok key k None, of grow itemid]
    have "storage_ok ((storage idx)\<lparr>pages := pages (storage idx) @ [fresh_page itemid],
             pages_cap := (if length (pages (storage idx)) < pages_cap (storage idx)
                           then pages_cap (storage idx) else grow (pages_cap (storage idx)))\<rparr>)"
      using ok by (intro storage_ok_append page_ok_fresh_last) (simp add: index_ok_def)
    then have sok: "storage_ok (storage idx')"
      using res eq by auto
    have len: "length (pages (storage idx')) = Suc (length (pages (storage idx)))"
      using res eq by auto
    have lk: "lookup idx' = (lookup idx)(k \<mapsto> int (length (pages (storage idx))))"
      using res eq by auto
    have old: "heads_ok idx" using ok by (simp add: index_ok_def)
    have "heads_ok idx'"
      unfolding heads_ok_def
    proof (intro allI impI)
      fix k' p' assume "lookup idx' k' = Some p'"
      then have "p' = int (length (pages (storage idx))) \<or> lookup idx k' = Some p'"
        using lk by (auto split: if_splits)
      then show "0 \<le> p' \<and> p' < int (length (pages (storage idx')))"
        using old len by (fastforce simp: heads_ok_def)
    qed
    with sok len show ?thesis
      by (simp add: index_ok_def)
  next
    case (Some p)
    from Indexer_Add_known [where U = U, OF ok small key k Some, of grow itemid] res
    obtain s' where s': "idx' = idx\<lparr>storage := s'\<rparr>" "storage_ok s'"
      "length (pages (storage idx)) \<le> length (pages s')"
      "length (pages s') \<le> Suc (length (pages (storage idx)))"
      by auto
    moreover have "heads_ok idx" using ok by (simp add: index_ok_def)
    ultimately show ?thesis
      by (fastforce simp: index_ok_def heads_ok_def)
  qed
qed


lemma AddAll_ok:
  "index_ok idx \<Longrightarrow> int (length (pages (storage idx))) + int (length ops) \<le> 2 ^ 31 \<Longrightarrow>
   AddAll grow U idx ops = Some (Inr idx') \<Longrightarrow>
   index_ok idx' \<and> length (pages (storage idx')) \<le> length (pages (storage idx)) + length ops"
proof (induction ops arbitrary: idx)
  case Nil
  then show ?case by simp
next
  case (Cons op ops)
  obtain itemid vec where op: "op = (itemid, vec)" by (cases op)
  from Cons.prems(3) op obtain idx1 where
    one: "Indexer_Add grow U idx itemid vec = Some (Inr idx1)"
    and rest: "AddAll grow U idx1 ops = Some (Inr idx')"
    by (auto split: option.splits sum.splits)
  have small: "int (length (pages (storage idx))) < 2 ^ 31"
    using Cons.prems(2) by simp
  from Indexer_Add_ok [OF Cons.prems(1) small one]
  have ok1: "index_ok idx1" and len1: "length (pages (storage idx1)) \<le> Suc (length (pages (storage idx)))"
    by simp_all
  have "int (length (pages (storage idx1))) + int (length ops) \<le> 2 ^ 31"
    using Cons.prems(2) len1 by simp
  from Cons.IH [OF ok1 this rest] len1 show ?case by simp
qed

lemma NewIndexer_ok:
  "NewIndexer NewRandomVectorGen Next_gen Angular sd bs vs = Inr idx \<Longrightarrow>
   index_ok idx \<and> pages (storage idx) = []"
  by (auto simp: NewIndexer_def index_ok_def storage_ok_def heads_ok_def split: if_splits)

lemma ex_new: "NewIndexer example_gen example_Next example_Angular 0 8 1 = Inr example_index"
  by (simp add: NewIndexer_def example_index_def example_gen_def example_Next_def eval_nat_numeral)

lemma ex_hash1: "example_Angular (hyperplane example_index) [1] = Inr \<lparr>size_bv = 8, bits = [255]\<rparr>"
  by (simp add: example_index_def example_Angular_def New_def Set_def)

lemma ex_hash2: "example_Angular (hyperplane example_index) [- 1] = Inr \<lparr>size_bv = 8, bits = [1]\<rparr>"
  by (simp add: example_index_def example_Angular_def New_def Set_def)

lemma ex_u1: "example_Uint32 \<lparr>size_bv = 8, bits = [255]\<rparr> = Inr 255"
  by (simp add: example_Uint32_def)

lemma ex_f1: "example_FromUint32 255 8 = \<lparr>size_bv = 8, bits = [255]\<rparr>"
  by (simp add: example_FromUint32_def upt_conv_Cons)

lemma ex_u2: "example_Uint32 \<lparr>size_bv = 8, bits = [1]\<rparr> = Inr 1"
  by (simp add: example_Uint32_def)

lemma ex_adds:
  "AddAll doubling example_Uint32 example_index [(1, [1]), (2, [- 1]), (3, [1])] = Some (Inr example_index3)"
  by (simp add: Indexer_Add_def ex_hash1 ex_hash2 ex_u1 ex_u2 example_index_def example_index3_def
      allocatePage_def Storage_Add_def pageIterator_def Add_walk.simps pageIter_next_def getPage_def
      Init_def Link_def Page_zero_def int32_minus1 Next_def Full_def items_len_def Page_Add_def
      doubling_def put_item_def fresh_page_def example_Angular_def New_def Set_def)










lemma Search_pages_bucket:
  assumes ok: "index_ok idx" and hd: "lookup idx k = Some p"
  shows "Search_pages (storage idx) (pageIterator p) acc = Some (Inr (acc @ bucket idx k))"
proof -
  have sok: "storage_ok (storage idx)" and p: "0 \<le> p" "p < int (length (pages (storage idx)))"
    using ok hd by (auto simp: index_ok_def heads_ok_def)
  from chain_exists [OF sok, of p] p obtain ns where ns: "chain (pages (storage idx)) p ns"
    by blast
  show ?thesis
    using Search_pages_chain [OF ns sok] hd by (simp add: bucket_def pageIterator_def)
qed

lemma Search_loop_drained:
  assumes ok: "index_ok idx"
  shows "keys_convert U F idx key ks \<Longrightarrow> set ks \<subseteq> dom (lookup idx) \<Longrightarrow>
     Search_loop U idx key (map (\<lambda>k. F k (bitsize idx)) ks) limit acc lastdist =
     Some (Inr (acc @ collected (bucket idx) ks
                        (drained limit (key_dist F idx key) (bucket idx) ks (length acc) lastdist)))"
proof (induction ks arbitrary: acc lastdist)
  case Nil
  then show ?case by (simp add: collected_def)
next
  case (Cons k ks)
  from Cons.prems(1) have u: "U (F k (bitsize idx)) = Inr k"
    and h: "\<not> isl (Hamming key (F k (bitsize idx)))"
    and rest: "keys_convert U F idx key ks"
    by (simp_all add: keys_convert_def)
  from h obtain d where d: "Hamming key (F k (bitsize idx)) = Inr d"
    by (cases "Hamming key (F k (bitsize idx))") auto
  then have kd: "key_dist F idx key k = d"
    by (simp add: key_dist_def Hamming_or_0_def)
  from Cons.prems(2) obtain p where p: "lookup idx k = Some p" and sub: "set ks \<subseteq> dom (lookup idx)"
    by auto
  note pages = Search_pages_bucket [OF ok p, of acc]
  show ?case
  proof (cases "lastdist \<noteq> d \<and> limit \<le> int (length acc)")
    case True
    then show ?thesis
      by (simp add: d kd collected_def)
  next
    case False
    then have dr: "drained limit (key_dist F idx key) (bucket idx) (k # ks) (length acc) lastdist =
        Suc (drained limit (key_dist F idx key) (bucket idx) ks (length acc + length (bucket idx k)) d)"
      by (auto simp: kd)
    have "Search_loop U idx key (map (\<lambda>k. F k (bitsize idx)) (k # ks)) limit acc lastdist =
          Search_loop U idx key (map (\<lambda>k. F k (bitsize idx)) ks) limit (acc @ bucket idx k) d"
      using False by (auto simp: d u p pages)
    also note Cons.IH [OF rest sub, of "acc @ bucket idx k" d]
    finally show ?thesis
      by (simp only: dr) (simp add: collected_def)
  qed
qed

lemma drained_le: "drained limit d b ks n l \<le> length ks"
  by (induction ks arbitrary: n l) auto

lemma drained_stop:
  "drained limit d b ks n l < length ks \<Longrightarrow>
   last_dist d ks l (drained limit d b ks n l) \<noteq> d (ks ! drained limit d b ks n l) \<and>
   limit \<le> int (n + length (collected b ks (drained limit d b ks n l)))"
proof (induction ks arbitrary: n l)
  case Nil
  then show ?case by simp
next
  case (Cons k ks)
  show ?case
  proof (cases "l \<noteq> d k \<and> limit \<le> int n")
    case True
    then show ?thesis by (simp add: last_dist_def collected_def)
  next
    case False
    let ?m = "drained limit d b ks (n + length (b k)) (d k)"
    from False Cons.prems have "?m < length ks" by auto
    from Cons.IH [OF this] have
      "last_dist d ks (d k) ?m \<noteq> d (ks ! ?m)"
      "limit \<le> int (n + length (b k) + length (collected b ks ?m))"
      by simp_all
    moreover have "last_dist d (k # ks) l (Suc ?m) = last_dist d ks (d k) ?m"
      by (cases ?m) (simp_all add: last_dist_def)
    moreover have "drained limit d b (k # ks) n l = Suc ?m"
      using False by auto
    ultimately show ?thesis
      by (simp add: collected_def)
  qed
qed

lemma drained_continue:
  "m < drained limit d b ks n l \<Longrightarrow>
   \<not> (last_dist d ks l m \<noteq> d (ks ! m) \<and> limit \<le> int (n + length (collected b ks m)))"
proof (induction ks arbitrary: n l m)
  case Nil
  then show ?case by simp
next
  case (Cons k ks)
  from Cons.prems have go: "\<not> (l \<noteq> d k \<and> limit \<le> int n)"
    by (auto split: if_splits)
  show ?case
  proof (cases m)
    case 0
    with go show ?thesis by (simp add: last_dist_def collected_def)
  next
    case (Suc m')
    with Cons.prems go have "m' < drained limit d b ks (n + length (b k)) (d k)"
      by (auto split: if_splits)
    from Cons.IH [OF this] have
      "\<not> (last_dist d ks (d k) m' \<noteq> d (ks ! m') \<and>
          limit \<le> int (n + length (b k) + length (collected b ks m')))" .
    moreover have "last_dist d (k # ks) l (Suc m') = last_dist d ks (d k) m'"
      by (cases m') (simp_all add: last_dist_def)
    ultimately show ?thesis
      using Suc by (simp add: collected_def add.assoc)
  qed
qed

lemma insort_key_map:
  "insort_key f (g x) (map g ys) = map g (insort_key (\<lambda>y. f (g y)) x ys)"
  by (induction ys) auto

lemma sort_key_map: "sort_key f (map g xs) = map g (sort_key (\<lambda>y. f (g y)) xs)"
  by (induction xs) (auto simp: insort_key_map)

lemma SortFrom_keys:
  assumes "keys_convert U F idx key ks"
  shows "SortFrom key (map (\<lambda>k. F k (bitsize idx)) ks) =
         Inr (map (\<lambda>k. F k (bitsize idx)) (sort_key (key_dist F idx key) ks))"
proof -
  have "\<not> list_ex (\<lambda>b. isl (Hamming key b)) (map (\<lambda>k. F k (bitsize idx)) ks)"
    using assms by (auto simp: keys_convert_def list_ex_iff list_all_iff)
  then show ?thesis
    by (simp add: SortFrom_def sort_key_map key_dist_def [abs_def])
qed

lemma Search_result:
  assumes ok: "index_ok idx" and ks: "set ks = dom (lookup idx)"
    and key: "distance idx (hyperplane idx) vec = Inr key"
    and conv: "keys_convert U F idx key ks" and lim: "0 \<le> limit" "8 * limit \<le> maxAlloc"
  shows "Search maxAlloc U F idx ks vec limit =
         Some (Inr (collected (bucket idx) (sort_key (key_dist F idx key) ks)
                      (drained limit (key_dist F idx key) (bucket idx)
                         (sort_key (key_dist F idx key) ks) 0 0)))"
proof -
  let ?sk = "sort_key (key_dist F idx key) ks"
  have conv': "keys_convert U F idx key ?sk"
    using conv by (simp add: keys_convert_def list_all_iff)
  have sub: "set ?sk \<subseteq> dom (lookup idx)"
    using ks by simp
  show ?thesis
    using Search_loop_drained [OF ok conv' sub, of limit "[]" 0] lim
    by (simp add: Search_def key SortFrom_keys [OF conv])
qed

lemma Search_characterised:
  assumes ok: "index_ok idx" and dist: "distinct ks" and ks: "set ks = dom (lookup idx)"
    and key: "distance idx (hyperplane idx) vec = Inr key"
    and conv: "keys_convert U F idx key ks" and lim: "0 \<le> limit" "8 * limit \<le> maxAlloc"
  shows "\<exists>sk n. set sk = set ks \<and> distinct sk \<and> sorted (map (key_dist F idx key) sk) \<and>
           n \<le> length sk \<and>
           Search maxAlloc U F idx ks vec limit = Some (Inr (collected (bucket idx) sk n)) \<and>
           (\<forall>m<n. \<not> stop_at limit (key_dist F idx key) (bucket idx) sk m) \<and>
           (n < length sk \<longrightarrow> stop_at limit (key_dist F idx key) (bucket idx) sk n)"
proof -
  let ?d = "key_dist F idx key"
  let ?sk = "sort_key ?d ks"
  let ?n = "drained limit ?d (bucket idx) ?sk 0 0"
  have "set ?sk = set ks" "distinct ?sk" "sorted (map ?d ?sk)"
    using dist by simp_all
  moreover have "?n \<le> length ?sk"
    by (rule drained_le)
  moreover have "Search maxAlloc U F idx ks vec limit = Some (Inr (collected (bucket idx) ?sk ?n))"
    by (rule Search_result [OF ok ks key conv lim])
  moreover have "\<forall>m<?n. \<not> stop_at limit ?d (bucket idx) ?sk m"
    using drained_continue [of _ limit ?d "bucket idx" ?sk 0 0] by (simp add: stop_at_def)
  moreover have "?n < length ?sk \<longrightarrow> stop_at limit ?d (bucket idx) ?sk ?n"
    using drained_stop [of limit ?d "bucket idx" ?sk 0 0] by (simp add: stop_at_def)
  ultimately show ?thesis by blast
qed

text \<open>
  Claim C2, as stated for every limit, fails for a negative one:
  \<^verbatim>\<open>make([]uint64, 0, limit)\<close> panics before any bucket is drained.
\<close>

theorem C2_Search_negative_limit_counterexample:
  "Search example_maxAlloc example_Uint32 example_FromUint32 example_index3 [1, 255] [1] (- 1) =
     Some (Inl MakeSliceOutOfRange)"
  by (simp add: Search_def example_index3_def example_index_def example_Angular_def New_def Set_def
      SortFrom_def example_FromUint32_def upt_conv_Cons Hamming_def ByteSize_def)

lemma replicate_items_len: "replicate items_len x = x # x # replicate 1021 x"
proof -
  have "(1023 :: nat) = Suc (Suc 1021)" by simp
  then show ?thesis
    unfolding items_len_def by (simp only: replicate_Suc)
qed

lemma page_items_fresh: "page_items (fresh_page a) = [a]"
  by (simp add: page_items_def fresh_page_def replicate_items_len)

lemma page_items_put_fresh: "page_items (put_item (fresh_page a) b) = [a, b]"
  by (simp add: page_items_def put_item_def fresh_page_def replicate_items_len eval_nat_numeral)

lemma ex3_ok: "index_ok example_index3"
proof -
  have "index_ok example_index"
    using NewIndexer_ok [OF ex_new] by simp
  moreover have "int (length (pages (storage example_index))) +
      int (length [(1 :: 64 word, [1 :: int]), (2, [- 1]), (3, [1])]) \<le> 2 ^ 31"
    by (simp add: example_index_def)
  ultimately show ?thesis
    using AddAll_ok [OF _ _ ex_adds] by blast
qed

lemma ex3_hash: "distance example_index3 (hyperplane example_index3) [1] = Inr \<lparr>size_bv = 8, bits = [255]\<rparr>"
  using ex_hash1 by (simp add: example_index3_def example_index_def)

lemma ex3_keys: "set [1, 255] = dom (lookup example_index3)"
  by (auto simp: example_index3_def)

lemma ex_f2: "example_FromUint32 1 8 = \<lparr>size_bv = 8, bits = [1]\<rparr>"
  by (simp add: example_FromUint32_def upt_conv_Cons)

lemma ex_h255: "Hamming \<lparr>size_bv = 8, bits = [255]\<rparr> \<lparr>size_bv = 8, bits = [255]\<rparr> = Inr 0"
  by (simp add: Hamming_def ByteSize_def upt_conv_Cons popcnt_def)

lemma ex_h1: "Hamming \<lparr>size_bv = 8, bits = [255]\<rparr> \<lparr>size_bv = 8, bits = [1]\<rparr> = Inr 7"
  by (simp add: Hamming_def ByteSize_def upt_conv_Cons popcnt_def)

lemma ex3_bitsize: "bitsize example_index3 = 8"
  by (simp add: example_index3_def example_index_def)

lemma ex3_conv:
  "keys_convert example_Uint32 example_FromUint32 example_index3 \<lparr>size_bv = 8, bits = [255]\<rparr> [1, 255]"
  by (simp add: keys_convert_def ex3_bitsize ex_f1 ex_f2 ex_u1 ex_u2 ex_h255 ex_h1)

lemma ex3_search_pages0:
  "Search_pages (storage example_index3) (pageIterator 0) [] = Some (Inr [1, 3])"
proof -
  have ch: "chain (pages (storage example_index3)) 0 [0]"
    by (simp add: example_index3_def put_item_def fresh_page_def)
  have sok: "storage_ok (storage example_index3)"
    using ex3_ok by (simp add: index_ok_def)
  have pg: "pages (storage example_index3) ! 0 = put_item (fresh_page 1) 3"
    by (simp add: example_index3_def)
  show ?thesis
    using Search_pages_chain [OF ch sok, of "- 1" "[]"]
    by (simp add: pageIterator_def pg page_items_put_fresh)
qed

lemma ex3_search_pages1:
  "Search_pages (storage example_index3) (pageIterator 1) [] = Some (Inr [2])"
proof -
  have ch: "chain (pages (storage example_index3)) 1 [1]"
    by (simp add: example_index3_def fresh_page_def)
  have sok: "storage_ok (storage example_index3)"
    using ex3_ok by (simp add: index_ok_def)
  have pg: "pages (storage example_index3) ! Suc 0 = fresh_page 2"
    by (simp add: example_index3_def)
  show ?thesis
    using Search_pages_chain [OF ch sok, of "- 1" "[]"]
    by (simp add: pageIterator_def pg page_items_fresh)
qed

lemma ex3_bucket255: "bucket example_index3 255 = [1, 3]"
  using ex3_search_pages0 by (simp add: bucket_def) (simp add: example_index3_def)

lemma ex3_bucket1: "bucket example_index3 1 = [2]"
  using ex3_search_pages1 by (simp add: bucket_def) (simp add: example_index3_def)

lemma ex3_dist255:
  "key_dist example_FromUint32 example_index3 \<lparr>size_bv = 8, bits = [255]\<rparr> 255 = 0"
  by (simp add: key_dist_def Hamming_or_0_def ex3_bitsize ex_f1 ex_h255)

lemma ex3_dist1:
  "key_dist example_FromUint32 example_index3 \<lparr>size_bv = 8, bits = [255]\<rparr> 1 = 7"
  by (simp add: key_dist_def Hamming_or_0_def ex3_bitsize ex_f2 ex_h1)

lemma ex3_sorted:
  "sort_key (key_dist example_FromUint32 example_index3 \<lparr>size_bv = 8, bits = [255]\<rparr>) [1, 255] = [255, 1]"
  by (simp add: ex3_dist255 ex3_dist1)

lemma ex3_search1:
  "Search example_maxAlloc example_Uint32 example_FromUint32 example_index3 [1, 255] [1] 1 = Some (Inr [1, 3])"
  using Search_result [OF ex3_ok ex3_keys ex3_hash ex3_conv, of 1 example_maxAlloc]
  by (simp add: ex3_sorted ex3_dist255 ex3_dist1 ex3_bucket255 ex3_bucket1 collected_def
      example_maxAlloc_def)

lemma ex3_search5:
  "Search example_maxAlloc example_Uint32 example_FromUint32 example_index3 [1, 255] [1] 5 = Some (Inr [1, 3, 2])"
  using Search_result [OF ex3_ok ex3_keys ex3_hash ex3_conv, of 5 example_maxAlloc]
  by (simp add: ex3_sorted ex3_dist255 ex3_dist1 ex3_bucket255 ex3_bucket1 collected_def
      example_maxAlloc_def)

lemma sum_list_perm:
  fixes f :: "'a \<Rightarrow> nat"
  shows "distinct xs \<Longrightarrow> distinct ys \<Longrightarrow> set xs = set ys \<Longrightarrow>
         sum_list (map f xs) = sum_list (map f ys)"
  by (simp add: sum_list_distinct_conv_sum_set)

lemma length_collected:
  "length (collected b sk m) = sum_list (map (\<lambda>k. length (b k)) (take m sk))"
  by (simp add: collected_def length_concat o_def)

lemma length_collected_le:
  "length (collected b sk m) \<le> length (collected b sk (length sk))"
proof -
  have "sum_list (map (\<lambda>k. length (b k)) sk) =
        sum_list (map (\<lambda>k. length (b k)) (take m sk)) + sum_list (map (\<lambda>k. length (b k)) (drop m sk))"
    by (metis append_take_drop_id map_append sum_list_append)
  then show ?thesis
    by (simp add: length_collected)
qed

text \<open>
  Claim C5, as stated, fails: on the empty index a negative limit does not give the
  empty sequence, \<^verbatim>\<open>make([]uint64, 0, limit)\<close> panics.
\<close>

theorem C5_Search_negative_limit_counterexample:
  "dom (lookup example_index) = {} \<and>
   Search example_maxAlloc example_Uint32 example_FromUint32 example_index [] [1] (- 1) =
     Some (Inl MakeSliceOutOfRange)"
  by (simp add: Search_def example_index_def example_Angular_def New_def Set_def SortFrom_def)

lemma AddAll_append:
  "AddAll g U idx (xs @ ys) =
     (case AddAll g U idx xs of Some (Inr idx') \<Rightarrow> AddAll g U idx' ys | r \<Rightarrow> r)"
  by (induction xs arbitrary: idx) (auto split: option.splits sum.splits)

lemma adds_Suc: "adds (Suc n) = adds n @ [(of_nat n, [1])]"
  by (simp add: adds_def)

lemma fresh_is_filled: "fresh_page 0 = filled_page 1"
proof -
  have "items_len = Suc (items_len - 1)" by (simp add: items_len_def)
  then have "replicate items_len (0 :: 64 word) = 0 # replicate (items_len - 1) 0"
    by (metis replicate_Suc)
  then show ?thesis
    by (simp add: fresh_page_def filled_page_def)
qed

lemma put_filled:
  assumes "n < items_len"
  shows "put_item (filled_page n) (of_nat n) = filled_page (Suc n)"
proof -
  have "items_len - n = Suc (items_len - Suc n)" using assms by simp
  then have "replicate (items_len - n) (0 :: 64 word) = 0 # replicate (items_len - Suc n) 0"
    by (metis replicate_Suc)
  then show ?thesis
    by (simp add: put_item_def filled_page_def list_update_append)
qed

lemma ex_hash_one: "distance (one_bucket c n) (hyperplane (one_bucket c n)) [1] = Inr \<lparr>size_bv = 8, bits = [255]\<rparr>"
  using ex_hash1 by (simp add: one_bucket_def example_index_def)

lemma first_add:
  "Indexer_Add g example_Uint32 example_index 0 [1] = Some (Inr (one_bucket (g 0) 1))"
proof -
  have ok: "index_ok example_index"
    using NewIndexer_ok [OF ex_new] by simp
  have key: "distance example_index (hyperplane example_index) [1] = Inr \<lparr>size_bv = 8, bits = [255]\<rparr>"
    using ex_hash1 by (simp add: example_index_def)
  have none: "lookup example_index 255 = None"
    by (simp add: example_index_def)
  show ?thesis
    using Indexer_Add_new [where U = example_Uint32, OF ok key ex_u1 none, of g 0]
    by (simp add: one_bucket_def fresh_is_filled) (simp add: example_index_def)
qed

lemma chain_one: "chain (pages (storage (one_bucket c n))) 0 [0]"
  by (simp add: one_bucket_def filled_page_def)

lemma next_add:
  assumes "n < items_len"
  shows "Indexer_Add g example_Uint32 (one_bucket c n) (of_nat n) [1] = Some (Inr (one_bucket c (Suc n)))"
proof -
  have pg: "pages (storage (one_bucket c n)) ! 0 = filled_page n"
    by (simp add: one_bucket_def)
  have nf: "\<not> Full (filled_page n)"
    using assms by (simp add: Full_def filled_page_def)
  have rng: "0 \<le> nitems (filled_page n)" "nitems (filled_page n) \<le> int (length (items (filled_page n)))"
    using assms by (simp_all add: filled_page_def)
  have "Storage_Add g (storage (one_bucket c n)) (of_nat n) 0 =
        Some (Inr ((storage (one_bucket c n))
                     \<lparr>pages := (pages (storage (one_bucket c n)))
                        [last [0] := put_item (pages (storage (one_bucket c n)) ! last [0]) (of_nat n)]\<rparr>,
                   int (last [0])))"
    using nf rng by (intro Storage_Add_not_full [OF chain_one]) (simp_all add: pg)
  then have "Storage_Add g (storage (one_bucket c n)) (of_nat n) 0 =
        Some (Inr (storage (one_bucket c (Suc n)), 0))"
    using assms by (simp add: pg put_filled) (simp add: one_bucket_def)
  then show ?thesis
    by (simp add: Indexer_Add_def ex_hash_one ex_u1) (simp add: one_bucket_def)
qed

lemma AddAll_one_bucket:
  "n < items_len \<Longrightarrow> AddAll g example_Uint32 example_index (adds (Suc n)) = Some (Inr (one_bucket (g 0) (Suc n)))"
proof (induction n)
  case 0
  then show ?case
    using first_add by (simp add: adds_def)
next
  case (Suc n)
  then have "AddAll g example_Uint32 example_index (adds (Suc n)) = Some (Inr (one_bucket (g 0) (Suc n)))"
    by simp
  then show ?case
    using next_add [of "Suc n" g "g 0"] Suc.prems
    by (simp add: adds_Suc [of "Suc n"] AddAll_append)
qed

lemma length_adds: "length (adds n) = n"
  by (simp add: adds_def)

lemma AddAll_1023:
  "AddAll g example_Uint32 example_index (adds 1023) = Some (Inr (one_bucket (g 0) 1023))"
proof -
  have "(1022 :: nat) < items_len" by (simp add: items_len_def)
  from AddAll_one_bucket [OF this] show ?thesis by simp
qed

lemma Full_filled: "Full (filled_page items_len)"
  by (simp add: Full_def filled_page_def)

lemma overflow_add_1024:
  "Indexer_Add doubling example_Uint32 (one_bucket (Suc 0) 1023) 1023 [1] = Some (Inr overflowed_1024)"
proof -
  have n: "(1023 :: nat) = items_len" by (simp add: items_len_def)
  have full: "Full (pages (storage (one_bucket (Suc 0) 1023)) ! last [0])"
    using Full_filled by (simp add: one_bucket_def n)
  have "Storage_Add doubling (storage (one_bucket (Suc 0) 1023)) 1023 0 =
        Some (Inr (storage overflowed_1024, 1))"
    using Storage_Add_full [OF chain_one _ full, of doubling 1023]
    by (simp add: one_bucket_def overflowed_1024_def doubling_def)
  then show ?thesis
    by (simp add: Indexer_Add_def ex_hash_one ex_u1)
       (simp add: one_bucket_def overflowed_1024_def)
qed

lemma AddAll_1024:
  "AddAll doubling example_Uint32 example_index (adds 1024) = Some (Inr overflowed_1024)"
proof -
  have "adds 1024 = adds (Suc 1023)" by simp
  then have "adds 1024 = adds 1023 @ [(1023, [1])]"
    by (simp only: adds_Suc) simp
  then show ?thesis
    by (simp add: AddAll_append AddAll_1023 overflow_add_1024 doubling_def)
qed

lemma chain_1024: "chain (pages (storage overflowed_1024)) 0 [0]"
  by (simp add: overflowed_1024_def filled_page_def)

lemma overflow_add_1025:
  "Indexer_Add doubling example_Uint32 overflowed_1024 1024 [1] = Some (Inr overflowed_1025)"
proof -
  have n: "(1023 :: nat) = items_len" by (simp add: items_len_def)
  have full: "Full (pages (storage overflowed_1024) ! last [0])"
    using Full_filled by (simp add: overflowed_1024_def n)
  have key: "distance overflowed_1024 (hyperplane overflowed_1024) [1] = Inr \<lparr>size_bv = 8, bits = [255]\<rparr>"
    using ex_hash1 by (simp add: overflowed_1024_def example_index_def)
  have "Storage_Add doubling (storage overflowed_1024) 1024 0 =
        Some (Inr (storage overflowed_1025, 2))"
    using Storage_Add_full [OF chain_1024 _ full, of doubling 1024]
    by (simp add: overflowed_1024_def overflowed_1025_def doubling_def)
  then show ?thesis
    by (simp add: Indexer_Add_def key ex_u1)
       (simp add: overflowed_1024_def overflowed_1025_def)
qed

lemma AddAll_1025:
  "AddAll doubling example_Uint32 example_index (adds 1025) = Some (Inr overflowed_1025)"
proof -
  have "adds 1025 = adds (Suc 1024)" by simp
  then have "adds 1025 = adds 1024 @ [(1024, [1])]"
    by (simp only: adds_Suc) simp
  then show ?thesis
    by (simp add: AddAll_append AddAll_1024 overflow_add_1025)
qed

lemma page_items_filled: "n \<le> items_len \<Longrightarrow> page_items (filled_page n) = map of_nat [0..<n]"
  by (simp add: page_items_def filled_page_def)

lemma index_ok_1024: "index_ok overflowed_1024"
proof -
  have "index_ok example_index"
    using NewIndexer_ok [OF ex_new] by simp
  moreover have "int (length (pages (storage example_index))) + int (length (adds 1024)) \<le> 2 ^ 31"
    by (simp add: example_index_def length_adds)
  ultimately show ?thesis
    using AddAll_ok [OF _ _ AddAll_1024] by blast
qed

lemma bucket_1024: "bucket overflowed_1024 255 = map of_nat [0..<1023]"
proof -
  have sok: "storage_ok (storage overflowed_1024)"
    using index_ok_1024 by (simp add: index_ok_def)
  have pg: "pages (storage overflowed_1024) ! 0 = filled_page 1023"
    by (simp add: overflowed_1024_def)
  have "Search_pages (storage overflowed_1024) (pageIterator 0) [] = Some (Inr (map of_nat [0..<1023]))"
    using Search_pages_chain [OF chain_1024 sok, of "- 1" "[]"]
    by (simp add: pageIterator_def pg page_items_filled items_len_def)
  then show ?thesis
    by (simp add: bucket_def) (simp add: overflowed_1024_def)
qed

lemma search_1024:
  "Search example_maxAlloc example_Uint32 example_FromUint32 overflowed_1024 [255] [1] 1 =
     Some (Inr (map of_nat [0..<1023]))"
proof -
  have keys: "set [255] = dom (lookup overflowed_1024)"
    by (simp add: overflowed_1024_def)
  have key: "distance overflowed_1024 (hyperplane overflowed_1024) [1] = Inr \<lparr>size_bv = 8, bits = [255]\<rparr>"
    using ex_hash1 by (simp add: overflowed_1024_def example_index_def)
  have bs: "bitsize overflowed_1024 = 8"
    by (simp add: overflowed_1024_def example_index_def)
  have conv: "keys_convert example_Uint32 example_FromUint32 overflowed_1024 \<lparr>size_bv = 8, bits = [255]\<rparr> [255]"
    by (simp add: keys_convert_def bs ex_f1 ex_u1 ex_h255)
  have d: "key_dist example_FromUint32 overflowed_1024 \<lparr>size_bv = 8, bits = [255]\<rparr> 255 = 0"
    by (simp add: key_dist_def Hamming_or_0_def bs ex_f1 ex_h255)
  show ?thesis
    using Search_result [OF index_ok_1024 keys key conv, of 1 example_maxAlloc]
    by (simp add: d collected_def bucket_1024 example_maxAlloc_def)
qed

lemma item_1023_missing: "(1023 :: 64 word) \<notin> set (map of_nat [0..<1023])"
proof
  assume "(1023 :: 64 word) \<in> set (map of_nat [0..<1023])"
  then obtain i where i: "i < 1023" "(of_nat i :: 64 word) = 1023" by auto
  then have "unat (of_nat i :: 64 word) = unat (1023 :: 64 word)" by simp
  then have "i mod 2 ^ 64 = 1023" by (simp add: unat_of_nat)
  with i(1) show False by simp
qed

lemma dump_1025:
  "Dump overflowed_1025 [255] = Some (Inr ([(255, [0], 1023)], 1023))"
proof -
  have ch: "chain (pages (storage overflowed_1025)) 0 [0]"
    by (simp add: overflowed_1025_def filled_page_def)
  have pg: "pages (storage overflowed_1025) ! 0 = filled_page 1023"
    by (simp add: overflowed_1025_def)
  have "Dump_pages (storage overflowed_1025) (pageIterator 0) 0 [] = Some (Inr (1023, [0]))"
    using Dump_pages_chain [OF ch, of "- 1" 0 "[]"]
    by (simp add: pageIterator_def pg) (simp add: filled_page_def)
  then show ?thesis
    by (simp add: Dump_def) (simp add: overflowed_1025_def)
qed

lemma roomy_add_1024:
  "Indexer_Add roomy example_Uint32 (one_bucket 16 1023) 1023 [1] =
     Some (Inr (example_index\<lparr>storage := \<lparr>hash = [],
                                pages = [(filled_page 1023)\<lparr>link := 1\<rparr>, fresh_page 1023],
                                pages_cap = 16\<rparr>,
                   lookup := [255 \<mapsto> 0]\<rparr>))"
proof -
  have n: "(1023 :: nat) = items_len" by (simp add: items_len_def)
  have full: "Full (pages (storage (one_bucket 16 1023)) ! last [0])"
    using Full_filled by (simp add: one_bucket_def n)
  have l: "Link (filled_page 1023) 1 = (filled_page 1023)\<lparr>link := 1\<rparr>"
    by (simp add: Link_def int32_id)
  have "Storage_Add roomy (storage (one_bucket 16 1023)) 1023 0 =
        Some (Inr (\<lparr>hash = [], pages = [(filled_page 1023)\<lparr>link := 1\<rparr>, fresh_page 1023],
                    pages_cap = 16\<rparr>, 1))"
    using Storage_Add_full [OF chain_one _ full, of roomy 1023]
    by (simp add: one_bucket_def l)
  then show ?thesis
    by (simp add: Indexer_Add_def ex_hash_one ex_u1) (simp add: one_bucket_def)
qed

lemma roomy_add_1025:
  "Indexer_Add roomy example_Uint32
     (example_index\<lparr>storage := \<lparr>hash = [],
                                pages = [(filled_page 1023)\<lparr>link := 1\<rparr>, fresh_page 1023],
                                pages_cap = 16\<rparr>,
                   lookup := [255 \<mapsto> 0]\<rparr>) 1024 [1] =
   Some (Inr linked_1025)"
proof -
  let ?s = "\<lparr>hash = [], pages = [(filled_page 1023)\<lparr>link := 1\<rparr>, fresh_page 1023], pages_cap = 16\<rparr>"
  have ch: "chain (pages ?s) 0 [0, 1]"
    by (simp add: filled_page_def fresh_page_def)
  have nf: "\<not> Full (pages ?s ! last [0, 1])"
    by (simp add: Full_def fresh_page_def items_len_def)
  have "Storage_Add roomy ?s 1024 0 =
        Some (Inr (?s\<lparr>pages := (pages ?s)[last [0, 1] := put_item (pages ?s ! last [0, 1]) 1024]\<rparr>,
                   int (last [0, 1])))"
    by (rule Storage_Add_not_full [OF ch _ nf]) (simp_all add: fresh_page_def items_len_def)
  then have "Storage_Add roomy ?s 1024 0 = Some (Inr (storage linked_1025, 1))"
    by (simp add: linked_1025_def)
  moreover have "distance example_index (hyperplane example_index) [1] = Inr \<lparr>size_bv = 8, bits = [255]\<rparr>"
    using ex_hash1 by (simp add: example_index_def)
  ultimately show ?thesis
    by (simp add: Indexer_Add_def ex_u1) (simp add: linked_1025_def)
qed

lemma AddAll_roomy_1025:
  "AddAll roomy example_Uint32 example_index (adds 1025) = Some (Inr linked_1025)"
proof -
  have "adds 1025 = adds (Suc (Suc 1023))" by simp
  then have "adds 1025 = adds 1023 @ [(1023, [1]), (1024, [1])]"
    by (simp only: adds_Suc) simp
  moreover have "AddAll roomy example_Uint32 example_index (adds 1023) = Some (Inr (one_bucket 16 1023))"
    using AddAll_1023 [of roomy] by (simp add: roomy_def)
  ultimately show ?thesis
    by (simp add: AddAll_append roomy_add_1024 roomy_add_1025)
qed

lemma Dump_with_room:
  "AddAll roomy example_Uint32 example_index (adds 1025) = Some (Inr linked_1025) \<and>
   Dump linked_1025 [255] = Some (Inr ([(255, [0, 1], 1025)], 1025))"
proof -
  have ch: "chain (pages (storage linked_1025)) 0 [0, 1]"
    by (simp add: linked_1025_def filled_page_def fresh_page_def put_item_def)
  have "Dump_pages (storage linked_1025) (pageIterator 0) 0 [] = Some (Inr (1025, [0, 1]))"
    using Dump_pages_chain [OF ch, of "- 1" 0 "[]"]
    by (simp add: pageIterator_def)
       (simp add: linked_1025_def filled_page_def fresh_page_def put_item_def)
  then have "Dump linked_1025 [255] = Some (Inr ([(255, [0, 1], 1025)], 1025))"
    by (simp add: Dump_def) (simp add: linked_1025_def)
  with AddAll_roomy_1025 show ?thesis by simp
qed

text \<open>
  Claim C3 says that every inserted item is found by a search that hashes to its bucket.
  The code loses the item that overflows a page when \<^verbatim>\<open>append\<close> has to move the pages:
  \<^verbatim>\<open>Storage.Add\<close> links the new page through the pointer \<^verbatim>\<open>page\<close>, which still points
  into the array that \<^verbatim>\<open>s.pages\<close> had before \<^verbatim>\<open>allocatePage\<close>. After 1024 inserts into
  one bucket of a new index (capacities 1, then 2), the item 1023 sits on page 1, page 0
  still ends the chain, and the search for the same vector with limit 1 returns the
  items 0 to 1022 only.
\<close>

theorem C3_item_lost_after_page_overflow:
  "AddAll doubling example_Uint32 example_index (adds 1024) = Some (Inr overflowed_1024) \<and>
   (1023, [1]) \<in> set (adds 1024) \<and>
   Search example_maxAlloc example_Uint32 example_FromUint32 overflowed_1024 [255] [1] 1 =
     Some (Inr (map of_nat [0..<1023])) \<and>
   (1023 :: 64 word) \<notin> set (map of_nat [0..<1023])"
proof -
  have "(1023 :: nat) \<in> set [0..<1024]" by simp
  then have "(of_nat 1023 :: 64 word, [1 :: int]) \<in> (\<lambda>i. (of_nat i, [1])) ` set [0..<1024]"
    by (rule imageI)
  then have "(1023 :: 64 word, [1 :: int]) \<in> set (adds 1024)"
    by (simp add: adds_def)
  then show ?thesis
    using AddAll_1024 search_1024 item_1023_missing by blast
qed

text \<open>
  Claim C4 says that 1025 inserts into one bucket give a chain of 2 pages with 1023 and
  2 items, 1025 in total. With the capacities of the Go runtime (1, 2, 4) both
  overflowing inserts move the pages, both links are lost, and \<^verbatim>\<open>Dump\<close> reports the
  single page 0 with 1023 items; the storage holds three pages with 1023, 1 and 1 items.
  When the pages need not move (lemma \<open>Dump_with_room\<close>) the same inserts give the two
  pages and the total of 1025 that the claim states.
\<close>

theorem C4_Dump_misses_linked_pages:
  "AddAll doubling example_Uint32 example_index (adds 1025) = Some (Inr overflowed_1025) \<and>
   length (adds 1025) = 1025 \<and>
   Dump overflowed_1025 [255] = Some (Inr ([(255, [0], 1023)], 1023)) \<and>
   map nitems (pages (storage overflowed_1025)) = [1023, 1, 1] \<and>
   map link (pages (storage overflowed_1025)) = [- 1, - 1, - 1]"
  using AddAll_1025 dump_1025
  by (simp add: length_adds) (simp add: overflowed_1025_def filled_page_def fresh_page_def)

end
